theory Spec2Isabelle
  imports Main "HOL-Library.Word"
begin

unbundle bit_operations_syntax

section \<open>Data model\<close>

text \<open>
  A \<open>Uint8Array\<close> is a list of bytes. The 32-bit integers that the bitwise operators of
  the source work on are 32-bit words: \<open><<\<close> is \<open>push_bit\<close>, \<open>>>>\<close> is \<open>drop_bit\<close>,
  and the closing \<open>>>> 0\<close> reads the same bits as an unsigned number. Offsets and lengths
  are natural numbers.

  A string is the list of its Unicode code points (an unpaired surrogate is a code point
  of its own). \<open>TextEncoder\<close> and \<open>TextDecoder\<close> belong to the platform; they are written
  out below as the Encoding standard defines them.
\<close>

type_synonym byte = "8 word"
type_synonym bytes = "byte list"
type_synonym u32 = "32 word"
type_synonym jsstring = "nat list"

datatype js_error = RangeError | TypeError | EmptyDeviceKey

text \<open>The characters of an ASCII literal as code points.\<close>

definition lit :: "string \<Rightarrow> jsstring" where
  "lit s = map of_char s"

text \<open>
  Reading an element of a typed array inside a bitwise expression: an index past the end
  gives \<open>undefined\<close>, which the operators coerce to 0.
\<close>

definition byteAt :: "bytes \<Rightarrow> nat \<Rightarrow> u32" where
  "byteAt buf i = (if i < length buf then ucast (buf ! i) else 0)"

text \<open>Storing a number into a \<open>Uint8Array\<close> keeps its low eight bits.\<close>

definition toByte :: "u32 \<Rightarrow> byte" where
  "toByte v = ucast v"

text \<open>\<open>buf.slice(a, b)\<close> for non-negative bounds; both are clipped to the length.\<close>

definition sliceArr :: "'a list \<Rightarrow> nat \<Rightarrow> nat \<Rightarrow> 'a list" where
  "sliceArr buf a b = take (b - a) (drop a buf)"

text \<open>
  \<open>target.set(src, pos)\<close> where the source fits (\<open>pos + src.length \<le> target.length\<close>);
  callers for which it may not fit test that first and raise \<open>RangeError\<close>.
\<close>

definition arraySet :: "'a list \<Rightarrow> 'a list \<Rightarrow> nat \<Rightarrow> 'a list" where
  "arraySet target src pos = take pos target @ src @ drop (pos + length src) target"

subsection \<open>Platform text codecs\<close>

text \<open>\<open>TextEncoder.encode\<close>: UTF-8, an unpaired surrogate is replaced by U+FFFD.\<close>

definition utf8EncodeCodePoint :: "nat \<Rightarrow> bytes" where
  "utf8EncodeCodePoint c0 =
    (let c = (if 0xD800 \<le> c0 \<and> c0 \<le> 0xDFFF then 0xFFFD else c0) in
     if c < 0x80 then [of_nat c]
     else if c < 0x800 then [of_nat (0xC0 + c div 64), of_nat (0x80 + c mod 64)]
     else if c < 0x10000 then
       [of_nat (0xE0 + c div 4096), of_nat (0x80 + (c div 64) mod 64), of_nat (0x80 + c mod 64)]
     else
       [of_nat (0xF0 + c div 262144), of_nat (0x80 + (c div 4096) mod 64),
        of_nat (0x80 + (c div 64) mod 64), of_nat (0x80 + c mod 64)])"

definition textEncode :: "jsstring \<Rightarrow> bytes" where
  "textEncode s = concat (map utf8EncodeCodePoint s)"

text \<open>
  \<open>new TextDecoder('ascii')\<close>: the label \<open>ascii\<close> names the single-byte windows-1252
  decoder, the identity below 0x80 and from 0xA0 on.
\<close>

definition windows1252High :: "nat list" where
  "windows1252High =
    [0x20AC, 0x0081, 0x201A, 0x0192, 0x201E, 0x2026, 0x2020, 0x2021,
     0x02C6, 0x2030, 0x0160, 0x2039, 0x0152, 0x008D, 0x017D, 0x008F,
     0x0090, 0x2018, 0x2019, 0x201C, 0x201D, 0x2022, 0x2013, 0x2014,
     0x02DC, 0x2122, 0x0161, 0x203A, 0x0153, 0x009D, 0x017E, 0x0178]"

definition asciiDecodeByte :: "byte \<Rightarrow> nat" where
  "asciiDecodeByte b =
    (if 0x80 \<le> unat b \<and> unat b < 0xA0 then windows1252High ! (unat b - 0x80) else unat b)"

definition textDecoderDecode :: "bytes \<Rightarrow> jsstring" where
  "textDecoderDecode bs = map asciiDecodeByte bs"

text \<open>
  \<open>new TextDecoder('utf-8').decode\<close>: the UTF-8 decoder of the Encoding standard with
  replacement of malformed sequences by U+FFFD. The state is the code point under
  construction, the number of continuation bytes still missing and the bounds of the next
  continuation byte. \<open>utf8Start\<close> reads a first byte, \<open>utf8Step\<close> any byte: a byte that
  is no continuation ends the sequence with U+FFFD and is read again as a first byte.
  Input that ends inside a sequence gives a last U+FFFD.
\<close>

type_synonym utf8_state = "nat \<times> nat \<times> nat \<times> nat"

definition utf8Init :: utf8_state where
  "utf8Init = (0, 0, 0x80, 0xBF)"

definition utf8Start :: "nat \<Rightarrow> jsstring \<times> utf8_state" where
  "utf8Start v =
    (if v \<le> 0x7F then ([v], utf8Init)
     else if 0xC2 \<le> v \<and> v \<le> 0xDF then ([], (v mod 32, 1, 0x80, 0xBF))
     else if 0xE0 \<le> v \<and> v \<le> 0xEF then
       ([], (v mod 16, 2, if v = 0xE0 then 0xA0 else 0x80, if v = 0xED then 0x9F else 0xBF))
     else if 0xF0 \<le> v \<and> v \<le> 0xF4 then
       ([], (v mod 8, 3, if v = 0xF0 then 0x90 else 0x80, if v = 0xF4 then 0x8F else 0xBF))
     else ([0xFFFD], utf8Init))"

definition utf8Step :: "utf8_state \<Rightarrow> nat \<Rightarrow> jsstring \<times> utf8_state" where
  "utf8Step st v =
    (case st of (cp, needed, lower, upper) \<Rightarrow>
       if needed = 0 then utf8Start v
       else if v < lower \<or> upper < v then
         (case utf8Start v of (out, st') \<Rightarrow> (0xFFFD # out, st'))
       else if needed = 1 then ([cp * 64 + v mod 64], utf8Init)
       else ([], (cp * 64 + v mod 64, needed - 1, 0x80, 0xBF)))"

fun utf8Run :: "utf8_state \<Rightarrow> bytes \<Rightarrow> jsstring" where
  "utf8Run st [] =
    (case st of (cp, needed, lower, upper) \<Rightarrow> if needed = 0 then [] else [0xFFFD])"
| "utf8Run st (b # bs) =
    (case utf8Step st (unat b) of (out, st') \<Rightarrow> out @ utf8Run st' bs)"

text \<open>The decoder drops a byte order mark at the start of its output.\<close>

definition utf8Decode :: "bytes \<Rightarrow> jsstring" where
  "utf8Decode bs =
    (case utf8Run utf8Init bs of
       [] \<Rightarrow> []
     | c # cs \<Rightarrow> if c = 0xFEFF then cs else c # cs)"

section \<open>Chunk reader\<close>

definition KNOWN_TAGS :: "jsstring list" where
  "KNOWN_TAGS =
    [lit ''XPFH'', lit ''XPIH'', lit ''XMDL'', lit ''XPID'',
     lit ''EUID'', lit ''ETIT'', lit ''BLOB'', lit ''EEXT'', lit ''EICO'', lit ''FBIN'',
     lit ''CSEC'']"

definition readFourCC :: "bytes \<Rightarrow> nat \<Rightarrow> jsstring" where
  "readFourCC buf offset = textDecoderDecode (sliceArr buf offset (offset + 4))"

definition readUint32BE :: "bytes \<Rightarrow> nat \<Rightarrow> u32" where
  "readUint32BE buf offset =
    (push_bit 24 (byteAt buf offset) OR push_bit 16 (byteAt buf (offset + 1))
       OR push_bit 8 (byteAt buf (offset + 2)) OR byteAt buf (offset + 3))"

text \<open>A write past the end of a typed array is ignored, as \<open>list_update\<close> does.\<close>

definition writeUint32BE :: "bytes \<Rightarrow> nat \<Rightarrow> u32 \<Rightarrow> bytes" where
  "writeUint32BE buf offset v =
    buf[offset := toByte (drop_bit 24 v AND 0xff),
        offset + 1 := toByte (drop_bit 16 v AND 0xff),
        offset + 2 := toByte (drop_bit 8 v AND 0xff),
        offset + 3 := toByte (v AND 0xff)]"

definition isKnownTag :: "bytes \<Rightarrow> nat \<Rightarrow> bool" where
  "isKnownTag buf pos =
    (if pos + 4 > length buf then False else readFourCC buf pos \<in> set KNOWN_TAGS)"

function skipToNextTag :: "bytes \<Rightarrow> nat \<Rightarrow> nat \<Rightarrow> nat" where
  "skipToNextTag buf pos endOff =
    (if pos < endOff then (if isKnownTag buf pos then pos else skipToNextTag buf (pos + 1) endOff)
     else pos)"
  by pat_completeness auto
termination
  by (relation "measure (\<lambda>(buf, pos, endOff). endOff - pos)") auto

declare skipToNextTag.simps [simp del]

record chunk =
  chunk_id :: jsstring
  chunk_size :: u32
  chunk_data :: bytes
  chunk_offset :: nat

lemma skipToNextTag_ge: "pos \<le> skipToNextTag buf pos endOff"
proof (induction buf pos endOff rule: skipToNextTag.induct)
  case (1 buf pos endOff)
  show ?case
  proof (cases "pos < endOff \<and> \<not> isKnownTag buf pos")
    case True
    with "1.IH" have "pos + 1 \<le> skipToNextTag buf (pos + 1) endOff" by simp
    with True show ?thesis by (subst skipToNextTag.simps) simp
  next
    case False
    then show ?thesis by (subst skipToNextTag.simps) auto
  qed
qed

text \<open>
  One turn of the loop of \<open>readChunks\<close> at position \<open>pos\<close>: nothing when the loop
  breaks, else the chunk pushed and the position \<open>dataEnd\<close> the next turn starts from.
\<close>

definition readChunkAt :: "bytes \<Rightarrow> nat \<Rightarrow> nat \<Rightarrow> (chunk \<times> nat) option" where
  "readChunkAt buf pos endOff =
    (let p = skipToNextTag buf pos endOff in
     if p + 8 > endOff then None
     else
       (let ident = readFourCC buf p in
        if ident \<notin> set KNOWN_TAGS then None
        else
          (let sz = readUint32BE buf (p + 4);
               dataStart = p + 8;
               dataEnd = min (dataStart + unat sz) endOff
           in Some (\<lparr>chunk_id = ident, chunk_size = sz,
                      chunk_data = sliceArr buf dataStart dataEnd, chunk_offset = p\<rparr>, dataEnd))))"

lemma readChunkAt_progress:
  assumes "readChunkAt buf pos endOff = Some (c, e)" and "pos + 8 \<le> endOff"
  shows "pos + 8 \<le> e \<and> e \<le> endOff"
proof -
  define p where "p = skipToNextTag buf pos endOff"
  define n where "n = unat (readUint32BE buf (p + 4))"
  have ge: "pos \<le> p" unfolding p_def by (rule skipToNextTag_ge)
  have "p + 8 \<le> endOff \<and> e = min (p + 8 + n) endOff"
    using assms(1) unfolding readChunkAt_def Let_def p_def[symmetric] n_def
    by (simp split: if_splits)
  with ge show ?thesis by (simp add: min_def)
qed

text \<open>The loop itself; the chunks pushed are returned in order.\<close>

function readChunksLoop :: "bytes \<Rightarrow> nat \<Rightarrow> nat \<Rightarrow> chunk list" where
  "readChunksLoop buf pos endOff =
    (if pos + 8 \<le> endOff then
       (case readChunkAt buf pos endOff of
          None \<Rightarrow> []
        | Some (c, dataEnd) \<Rightarrow> c # readChunksLoop buf dataEnd endOff)
     else [])"
  by pat_completeness auto
termination
proof (relation "measure (\<lambda>(buf, pos, endOff). endOff - pos)", goal_cases)
  case 1
  show ?case by simp
next
  case (2 buf pos endOff x2 c dataEnd)
  then have a: "pos + 8 \<le> endOff" and b: "readChunkAt buf pos endOff = Some (c, dataEnd)"
    by simp_all
  from readChunkAt_progress[OF b a] a have "endOff - dataEnd < endOff - pos" by arith
  then show ?case by simp
qed
definition readChunks :: "bytes \<Rightarrow> nat \<Rightarrow> nat option \<Rightarrow> chunk list" where
  "readChunks buf startOffset endOffset =
    readChunksLoop buf startOffset (case endOffset of None \<Rightarrow> length buf | Some e \<Rightarrow> e)"

declare readChunksLoop.simps [simp del]

text \<open>What a chunk holds apart from its position: tag, declared size and payload.\<close>

definition chunkContent :: "chunk \<Rightarrow> jsstring \<times> u32 \<times> bytes" where
  "chunkContent c = (chunk_id c, chunk_size c, chunk_data c)"

definition readSubChunks :: "chunk \<Rightarrow> chunk list" where
  "readSubChunks c = readChunks (chunk_data c) 0 None"

definition chunkText :: "chunk \<Rightarrow> jsstring" where
  "chunkText c = filter (\<lambda>ch. ch \<noteq> 0) (utf8Decode (chunk_data c))"

section \<open>Chunk builder\<close>

definition concatArrays :: "bytes list \<Rightarrow> bytes" where
  "concatArrays arrays = concat arrays"

definition buildChunk :: "jsstring \<Rightarrow> bytes \<Rightarrow> bytes" where
  "buildChunk ident dat =
    (let buf = replicate (8 + length dat) 0;
         buf = arraySet buf (sliceArr (textEncode ident) 0 4) 0;
         buf = writeUint32BE buf 4 (of_nat (length dat));
         buf = arraySet buf dat 8
     in buf)"

definition buildContainerChunk :: "jsstring \<Rightarrow> bytes list \<Rightarrow> bytes" where
  "buildContainerChunk ident subChunks = buildChunk ident (concatArrays subChunks)"

definition buildTextChunk :: "jsstring \<Rightarrow> jsstring \<Rightarrow> bytes" where
  "buildTextChunk ident text = buildChunk ident (textEncode (text @ [0]))"

section \<open>DES\<close>

text \<open>
  The eight tables that join substitution and permutation, 64 entries each, and the
  rotation schedule.
\<close>

definition SP1 :: "u32 list" where
  "SP1 =
    [0x00808200, 0x00000000, 0x00008000, 0x00808202,
     0x00808002, 0x00008202, 0x00000002, 0x00008000,
     0x00000200, 0x00808200, 0x00808202, 0x00000200,
     0x00800202, 0x00808002, 0x00800000, 0x00000002,
     0x00000202, 0x00800200, 0x00800200, 0x00008200,
     0x00008200, 0x00808000, 0x00808000, 0x00800202,
     0x00008002, 0x00800002, 0x00800002, 0x00008002,
     0x00000000, 0x00000202, 0x00008202, 0x00800000,
     0x00008000, 0x00808202, 0x00000002, 0x00808000,
     0x00808200, 0x00800000, 0x00800000, 0x00000200,
     0x00808002, 0x00008000, 0x00008200, 0x00800002,
     0x00000200, 0x00000002, 0x00800202, 0x00008202,
     0x00808202, 0x00008002, 0x00808000, 0x00800202,
     0x00800002, 0x00000202, 0x00008202, 0x00808200,
     0x00000202, 0x00800200, 0x00800200, 0x00000000,
     0x00008002, 0x00008200, 0x00000000, 0x00808002]"

definition SP2 :: "u32 list" where
  "SP2 =
    [0x40084010, 0x40004000, 0x00004000, 0x00084010,
     0x00080000, 0x00000010, 0x40080010, 0x40004010,
     0x40000010, 0x40084010, 0x40084000, 0x40000000,
     0x40004000, 0x00080000, 0x00000010, 0x40080010,
     0x00084000, 0x00080010, 0x40004010, 0x00000000,
     0x40000000, 0x00004000, 0x00084010, 0x40080000,
     0x00080010, 0x40000010, 0x00000000, 0x00084000,
     0x00004010, 0x40084000, 0x40080000, 0x00004010,
     0x00000000, 0x00084010, 0x40080010, 0x00080000,
     0x40004010, 0x40080000, 0x40084000, 0x00004000,
     0x40080000, 0x40004000, 0x00000010, 0x40084010,
     0x00084010, 0x00000010, 0x00004000, 0x40000000,
     0x00004010, 0x40084000, 0x00080000, 0x40000010,
     0x00080010, 0x40004010, 0x40000010, 0x00080010,
     0x00084000, 0x00000000, 0x40004000, 0x00004010,
     0x40000000, 0x40080010, 0x40084010, 0x00084000]"

definition SP3 :: "u32 list" where
  "SP3 =
    [0x00000104, 0x04010100, 0x00000000, 0x04010004,
     0x04000100, 0x00000000, 0x00010104, 0x04000100,
     0x00010004, 0x04000004, 0x04000004, 0x00010000,
     0x04010104, 0x00010004, 0x04010000, 0x00000104,
     0x04000000, 0x00000004, 0x04010100, 0x00000100,
     0x00010100, 0x04010000, 0x04010004, 0x00010104,
     0x04000104, 0x00010100, 0x00010000, 0x04000104,
     0x00000004, 0x04010104, 0x00000100, 0x04000000,
     0x04010100, 0x04000000, 0x00010004, 0x00000104,
     0x00010000, 0x04010100, 0x04000100, 0x00000000,
     0x00000100, 0x00010004, 0x04010104, 0x04000100,
     0x04000004, 0x00000100, 0x00000000, 0x04010004,
     0x04000104, 0x00010000, 0x04000000, 0x04010104,
     0x00000004, 0x00010104, 0x00010100, 0x04000004,
     0x04010000, 0x04000104, 0x00000104, 0x04010000,
     0x00010104, 0x00000004, 0x04010004, 0x00010100]"

definition SP4 :: "u32 list" where
  "SP4 =
    [0x80401000, 0x80001040, 0x80001040, 0x00000040,
     0x00401040, 0x80400040, 0x80400000, 0x80001000,
     0x00000000, 0x00401000, 0x00401000, 0x80401040,
     0x80000040, 0x00000000, 0x00400040, 0x80400000,
     0x80000000, 0x00001000, 0x00400000, 0x80401000,
     0x00000040, 0x00400000, 0x80001000, 0x00001040,
     0x80400040, 0x80000000, 0x00001040, 0x00400040,
     0x00001000, 0x00401040, 0x80401040, 0x80000040,
     0x00400040, 0x80400000, 0x00401000, 0x80401040,
     0x80000040, 0x00000000, 0x00000000, 0x00401000,
     0x00001040, 0x00400040, 0x80400040, 0x80000000,
     0x80401000, 0x80001040, 0x80001040, 0x00000040,
     0x80401040, 0x80000040, 0x80000000, 0x00001000,
     0x80400000, 0x80001000, 0x00401040, 0x80400040,
     0x80001000, 0x00001040, 0x00400000, 0x80401000,
     0x00000040, 0x00400000, 0x00001000, 0x00401040]"

definition SP5 :: "u32 list" where
  "SP5 =
    [0x00000080, 0x01040080, 0x01040000, 0x21000080,
     0x00040000, 0x00000080, 0x20000000, 0x01040000,
     0x20040080, 0x00040000, 0x01000080, 0x20040080,
     0x21000080, 0x21040000, 0x00040080, 0x20000000,
     0x01000000, 0x20040000, 0x20040000, 0x00000000,
     0x20000080, 0x21040080, 0x21040080, 0x01000080,
     0x21040000, 0x20000080, 0x00000000, 0x21000000,
     0x01040080, 0x01000000, 0x21000000, 0x00040080,
     0x00040000, 0x21000080, 0x00000080, 0x01000000,
     0x20000000, 0x01040000, 0x21000080, 0x20040080,
     0x01000080, 0x20000000, 0x21040000, 0x01040080,
     0x20040080, 0x00000080, 0x01000000, 0x21040000,
     0x21040080, 0x00040080, 0x21000000, 0x21040080,
     0x01040000, 0x00000000, 0x20040000, 0x21000000,
     0x00040080, 0x01000080, 0x20000080, 0x00040000,
     0x00000000, 0x20040000, 0x01040080, 0x20000080]"

definition SP6 :: "u32 list" where
  "SP6 =
    [0x10000008, 0x10200000, 0x00002000, 0x10202008,
     0x10200000, 0x00000008, 0x10202008, 0x00200000,
     0x10002000, 0x00202008, 0x00200000, 0x10000008,
     0x00200008, 0x10002000, 0x10000000, 0x00002008,
     0x00000000, 0x00200008, 0x10002008, 0x00002000,
     0x00202000, 0x10002008, 0x00000008, 0x10200008,
     0x10200008, 0x00000000, 0x00202008, 0x10202000,
     0x00002008, 0x00202000, 0x10202000, 0x10000000,
     0x10002000, 0x00000008, 0x10200008, 0x00202000,
     0x10202008, 0x00200000, 0x00002008, 0x10000008,
     0x00200000, 0x10002000, 0x10000000, 0x00002008,
     0x10000008, 0x10202008, 0x00202000, 0x10200000,
     0x00202008, 0x10202000, 0x00000000, 0x10200008,
     0x00000008, 0x00002000, 0x10200000, 0x00202008,
     0x00002000, 0x00200008, 0x10002008, 0x00000000,
     0x10202000, 0x10000000, 0x00200008, 0x10002008]"

definition SP7 :: "u32 list" where
  "SP7 =
    [0x00100000, 0x02100001, 0x02000401, 0x00000000,
     0x00000400, 0x02000401, 0x00100401, 0x02100400,
     0x02100401, 0x00100000, 0x00000000, 0x02000001,
     0x00000001, 0x02000000, 0x02100001, 0x00000401,
     0x02000400, 0x00100401, 0x00100001, 0x02000400,
     0x02000001, 0x02100000, 0x02100400, 0x00100001,
     0x02100000, 0x00000400, 0x00000401, 0x02100401,
     0x00100400, 0x00000001, 0x02000000, 0x00100400,
     0x02000000, 0x00100400, 0x00100000, 0x02000401,
     0x02000401, 0x02100001, 0x02100001, 0x00000001,
     0x00100001, 0x02000000, 0x02000400, 0x00100000,
     0x02100400, 0x00000401, 0x00100401, 0x02100400,
     0x00000401, 0x02000001, 0x02100401, 0x02100000,
     0x00100400, 0x00000000, 0x00000001, 0x02100401,
     0x00000000, 0x00100401, 0x02100000, 0x00000400,
     0x02000001, 0x02000400, 0x00000400, 0x00100001]"

definition SP8 :: "u32 list" where
  "SP8 =
    [0x08000820, 0x00000800, 0x00020000, 0x08020820,
     0x08000000, 0x08000820, 0x00000020, 0x08000000,
     0x00020020, 0x08020000, 0x08020820, 0x00020800,
     0x08020800, 0x00020820, 0x00000800, 0x00000020,
     0x08020000, 0x08000020, 0x08000800, 0x00000820,
     0x00020800, 0x00020020, 0x08020020, 0x08020800,
     0x00000820, 0x00000000, 0x00000000, 0x08020020,
     0x08000020, 0x08000800, 0x00020820, 0x00020000,
     0x00020820, 0x00020000, 0x08020800, 0x00000800,
     0x00000020, 0x08020020, 0x00000800, 0x00020820,
     0x08000800, 0x00000020, 0x08000020, 0x08020000,
     0x08020020, 0x08000000, 0x00020000, 0x08000820,
     0x00000000, 0x08020820, 0x00020020, 0x08000020,
     0x08020000, 0x08000800, 0x08000820, 0x00000000,
     0x08020820, 0x00020800, 0x00020800, 0x00000820,
     0x00000820, 0x00020020, 0x08000000, 0x08020800]"

definition ROTATIONS :: "nat list" where
  "ROTATIONS =
    [1, 1, 2, 2, 2, 2, 2, 2, 1, 2, 2, 2, 2, 2, 2, 1]"

text \<open>
  A lookup in a \<open>Uint32Array\<close> inside an XOR: an index past the end gives
  \<open>undefined\<close>, which counts as 0.
\<close>

definition spAt :: "u32 list \<Rightarrow> u32 \<Rightarrow> u32" where
  "spAt tbl g = (if unat g < length tbl then tbl ! unat g else 0)"

text \<open>A round subkey \<open>[kHi, kLo]\<close>: two halves of 24 bits.\<close>

type_synonym subkey = "u32 \<times> u32"

definition bytesToLR :: "bytes \<Rightarrow> nat \<Rightarrow> u32 \<times> u32" where
  "bytesToLR buf off =
    (push_bit 24 (byteAt buf off) OR push_bit 16 (byteAt buf (off + 1))
       OR push_bit 8 (byteAt buf (off + 2)) OR byteAt buf (off + 3),
     push_bit 24 (byteAt buf (off + 4)) OR push_bit 16 (byteAt buf (off + 5))
       OR push_bit 8 (byteAt buf (off + 6)) OR byteAt buf (off + 7))"

definition lrToBytes :: "u32 \<Rightarrow> u32 \<Rightarrow> bytes \<Rightarrow> nat \<Rightarrow> bytes" where
  "lrToBytes L R buf off =
    buf[off := toByte (drop_bit 24 L AND 0xff),
        off + 1 := toByte (drop_bit 16 L AND 0xff),
        off + 2 := toByte (drop_bit 8 L AND 0xff),
        off + 3 := toByte (L AND 0xff),
        off + 4 := toByte (drop_bit 24 R AND 0xff),
        off + 5 := toByte (drop_bit 16 R AND 0xff),
        off + 6 := toByte (drop_bit 8 R AND 0xff),
        off + 7 := toByte (R AND 0xff)]"

definition initialPerm :: "u32 \<Rightarrow> u32 \<Rightarrow> u32 \<times> u32" where
  "initialPerm L0 R0 =
    (let t = (drop_bit 4 L0 XOR R0) AND 0x0F0F0F0F; R = R0 XOR t; L = L0 XOR push_bit 4 t;
         t = (drop_bit 16 L XOR R) AND 0x0000FFFF; R = R XOR t; L = L XOR push_bit 16 t;
         t = (drop_bit 2 R XOR L) AND 0x33333333; L = L XOR t; R = R XOR push_bit 2 t;
         t = (drop_bit 8 R XOR L) AND 0x00FF00FF; L = L XOR t; R = R XOR push_bit 8 t;
         t = (drop_bit 1 L XOR R) AND 0x55555555; R = R XOR t; L = L XOR push_bit 1 t
     in (L, R))"

definition finalPerm :: "u32 \<Rightarrow> u32 \<Rightarrow> u32 \<times> u32" where
  "finalPerm L0 R0 =
    (let t = (drop_bit 1 L0 XOR R0) AND 0x55555555; R = R0 XOR t; L = L0 XOR push_bit 1 t;
         t = (drop_bit 8 R XOR L) AND 0x00FF00FF; L = L XOR t; R = R XOR push_bit 8 t;
         t = (drop_bit 2 R XOR L) AND 0x33333333; L = L XOR t; R = R XOR push_bit 2 t;
         t = (drop_bit 16 L XOR R) AND 0x0000FFFF; R = R XOR t; L = L XOR push_bit 16 t;
         t = (drop_bit 4 L XOR R) AND 0x0F0F0F0F; R = R XOR t; L = L XOR push_bit 4 t
     in (L, R))"

text \<open>
  Each of the five steps of a permutation is a masked shift-and-XOR exchange (a delta
  swap) between the two halves: \<open>t = ((a >>> k) ^ b) & m; b ^= t; a ^= t << k\<close>, with
  \<open>a\<close> the left half in \<open>deltaSwap\<close> and the right half in \<open>deltaSwapRL\<close>. The two
  functions are used to state that a step applied twice is the identity.
\<close>

definition deltaSwap :: "nat \<Rightarrow> u32 \<Rightarrow> u32 \<times> u32 \<Rightarrow> u32 \<times> u32" where
  "deltaSwap k m p =
    (let t = (drop_bit k (fst p) XOR snd p) AND m in (fst p XOR push_bit k t, snd p XOR t))"

definition deltaSwapRL :: "nat \<Rightarrow> u32 \<Rightarrow> u32 \<times> u32 \<Rightarrow> u32 \<times> u32" where
  "deltaSwapRL k m p =
    (let t = (drop_bit k (snd p) XOR fst p) AND m in (fst p XOR t, snd p XOR push_bit k t))"

subsection \<open>Key schedule\<close>

definition PC1_C :: "nat list" where
  "PC1_C =
    [57, 49, 41, 33, 25, 17, 9, 1, 58, 50, 42, 34, 26, 18,
     10, 2, 59, 51, 43, 35, 27, 19, 11, 3, 60, 52, 44, 36]"

definition PC1_D :: "nat list" where
  "PC1_D =
    [63, 55, 47, 39, 31, 23, 15, 7, 62, 54, 46, 38, 30, 22,
     14, 6, 61, 53, 45, 37, 29, 21, 13, 5, 28, 20, 12, 4]"

definition PC2 :: "nat list" where
  "PC2 =
    [14, 17, 11, 24, 1, 5, 3, 28, 15, 6, 21, 10,
     23, 19, 12, 4, 26, 8, 16, 7, 27, 20, 13, 2,
     41, 52, 31, 37, 47, 55, 30, 40, 51, 45, 33, 48,
     44, 49, 39, 56, 34, 53, 46, 42, 50, 36, 29, 32]"

definition getBit64 :: "bytes \<Rightarrow> nat \<Rightarrow> u32" where
  "getBit64 k bit1based =
    (let byteIdx = (bit1based - 1) div 8;
         bitIdx = 7 - (bit1based - 1) mod 8
     in drop_bit bitIdx (byteAt k byteIdx) AND 1)"

definition getBitCD :: "u32 \<Rightarrow> u32 \<Rightarrow> nat \<Rightarrow> u32" where
  "getBitCD C D bit1based =
    (if bit1based \<le> 28 then drop_bit (28 - bit1based) C AND 1
     else drop_bit (56 - bit1based) D AND 1)"

text \<open>
  The loop over the sixteen rounds, as a recursion over the rotation amounts still to
  come: \<open>C\<close> and \<open>D\<close> are rotated, then the two halves of the subkey are selected.
\<close>

fun subKeyRounds :: "nat list \<Rightarrow> u32 \<Rightarrow> u32 \<Rightarrow> subkey list" where
  "subKeyRounds [] C D = []"
| "subKeyRounds (r # rs) C D =
    (let C' = (push_bit r C OR drop_bit (28 - r) C) AND 0x0FFFFFFF;
         D' = (push_bit r D OR drop_bit (28 - r) D) AND 0x0FFFFFFF;
         kHi = fold (\<lambda>i k. k OR push_bit (23 - i) (getBitCD C' D' (PC2 ! i))) [0..<24] 0;
         kLo = fold (\<lambda>i k. k OR push_bit (23 - i) (getBitCD C' D' (PC2 ! (24 + i)))) [0..<24] 0
     in (kHi, kLo) # subKeyRounds rs C' D')"

definition generateSubKeys :: "bytes \<Rightarrow> subkey list" where
  "generateSubKeys keyBytes =
    (let (C, D) =
           fold (\<lambda>i (C, D).
                   (C OR push_bit (27 - i) (getBit64 keyBytes (PC1_C ! i)),
                    D OR push_bit (27 - i) (getBit64 keyBytes (PC1_D ! i))))
                [0..<28] (0, 0)
     in subKeyRounds ROTATIONS C D)"

subsection \<open>Round function and block cipher\<close>

definition desF :: "u32 \<Rightarrow> subkey \<Rightarrow> u32" where
  "desF r K =
    (let g0 = (push_bit 5 (r AND 1) OR (drop_bit 27 r AND 0x1F)) XOR drop_bit 18 (fst K);
         g1 = (drop_bit 23 r AND 0x3F) XOR (drop_bit 12 (fst K) AND 0x3F);
         g2 = (drop_bit 19 r AND 0x3F) XOR (drop_bit 6 (fst K) AND 0x3F);
         g3 = (drop_bit 15 r AND 0x3F) XOR (fst K AND 0x3F);
         g4 = (drop_bit 11 r AND 0x3F) XOR drop_bit 18 (snd K);
         g5 = (drop_bit 7 r AND 0x3F) XOR (drop_bit 12 (snd K) AND 0x3F);
         g6 = (drop_bit 3 r AND 0x3F) XOR (drop_bit 6 (snd K) AND 0x3F);
         g7 = ((push_bit 1 (r AND 0x1F) OR (drop_bit 31 r AND 1)) XOR (snd K AND 0x3F)) AND 0x3F
     in spAt SP1 g0 XOR spAt SP2 g1 XOR spAt SP3 g2 XOR spAt SP4 g3
          XOR spAt SP5 g4 XOR spAt SP6 g5 XOR spAt SP7 g6 XOR spAt SP8 g7)"

text \<open>One turn of the round loop: \<open>f = desF(R, K); newR = L ^ f; L = R; R = newR\<close>.\<close>

definition desRound :: "subkey \<Rightarrow> u32 \<times> u32 \<Rightarrow> u32 \<times> u32" where
  "desRound K LR = (snd LR, fst LR XOR desF (snd LR) K)"

text \<open>
  \<open>subKeys[i]\<close> of a schedule with fewer than sixteen entries is \<open>undefined\<close>, and
  reading its element raises \<open>TypeError\<close>.
\<close>

definition desBlock :: "bytes \<Rightarrow> subkey list \<Rightarrow> js_error + bytes" where
  "desBlock block subKeys =
    (if length subKeys < 16 then Inl TypeError
     else
       (let (L, R) = bytesToLR block 0;
            (L, R) = initialPerm L R;
            (L, R) = fold (\<lambda>i. desRound (subKeys ! i)) [0..<16] (L, R);
            (L, R) = finalPerm R L
        in Inr (lrToBytes L R (replicate 8 0) 0)))"

definition desDecryptBlock :: "bytes \<Rightarrow> subkey list \<Rightarrow> js_error + bytes" where
  "desDecryptBlock block subKeys =
    (if length subKeys < 16 then Inl TypeError
     else
       (let (L, R) = bytesToLR block 0;
            (L, R) = initialPerm L R;
            (L, R) = fold (\<lambda>i. desRound (subKeys ! i)) (rev [0..<16]) (L, R);
            (L, R) = finalPerm R L
        in Inr (lrToBytes L R (replicate 8 0) 0)))"

subsection \<open>Key parity and chaining\<close>

definition msbParityByte :: "byte \<Rightarrow> byte" where
  "msbParityByte kb =
    (let b = (ucast kb :: u32) AND 0x7F;
         t = b;
         t = t XOR (push_bit 4 t AND 0xFF);
         t = t XOR (push_bit 2 t AND 0xFF);
         t = t XOR (push_bit 1 t AND 0xFF)
     in toByte (b OR (NOT t AND 0x80)))"

definition msbParity :: "bytes \<Rightarrow> bytes" where
  "msbParity keyBytes = map msbParityByte keyBytes"

text \<open>
  The loop of \<open>encryptDES_CBC\<close> with \<open>dat\<close> the input from index \<open>i\<close> on; the blocks
  written to \<open>encrypted\<close> are returned in order. \<open>encrypted.set(enc, i)\<close> raises
  \<open>RangeError\<close> when fewer than eight bytes are left, \<open>prevBlock.set(enc)\<close> when the
  chaining block is shorter than eight bytes.
\<close>

function cbcLoop :: "subkey list \<Rightarrow> bytes \<Rightarrow> bytes \<Rightarrow> js_error + bytes" where
  "cbcLoop subKeys prevBlock dat =
    (if dat = [] then Inr []
     else
       (case desBlock (map (\<lambda>j. toByte (byteAt dat j XOR byteAt prevBlock j)) [0..<8]) subKeys of
          Inl e \<Rightarrow> Inl e
        | Inr enc \<Rightarrow>
            if length dat < 8 then Inl RangeError
            else if length prevBlock < 8 then Inl RangeError
            else
              (case cbcLoop subKeys (arraySet prevBlock enc 0) (drop 8 dat) of
                 Inl e \<Rightarrow> Inl e
               | Inr rest \<Rightarrow> Inr (enc @ rest))))"
  by pat_completeness auto
termination
  by (relation "measure (\<lambda>(subKeys, prevBlock, dat). length dat)") simp_all

declare cbcLoop.simps [simp del]

definition encryptDES_CBC :: "bytes \<Rightarrow> bytes \<Rightarrow> bytes \<Rightarrow> js_error + bytes" where
  "encryptDES_CBC dat keyBytes iv =
    (let key = msbParity keyBytes;
         subKeys = generateSubKeys key
     in cbcLoop subKeys iv dat)"

section \<open>Vendor padding\<close>

definition addYamahaPadding :: "bytes \<Rightarrow> bytes" where
  "addYamahaPadding dat =
    (let remainder = length dat mod 8;
         padLen = (if remainder = 0 then 8 else 8 - remainder);
         padded = replicate (length dat + padLen) 0;
         padded = arraySet padded dat 0;
         padded = padded[length padded - 1 := of_nat remainder]
     in padded)"

section \<open>Constants\<close>

definition DES_KEY :: bytes where
  "DES_KEY =
    [0x46, 0x6F, 0x61, 0x74, 0x66, 0x6B, 0x69, 0x6F]"

definition DES_IV :: bytes where
  "DES_IV = replicate 8 0"

definition DES_KEY_DUALSEAL :: bytes where
  "DES_KEY_DUALSEAL =
    [0x64, 0x75, 0x61, 0x6C, 0x73, 0x65, 0x61, 0x6C]"

definition XOR_SEED :: bytes where
  "XOR_SEED =
    [0x0F, 0x62, 0xBE, 0x39, 0xD1, 0x70, 0xC7, 0xF4,
     0x1A, 0x85, 0x2D, 0x5C, 0x96, 0xE8, 0x4B, 0xA3]"

definition EXPANSION_TABLE :: "nat list" where
  "EXPANSION_TABLE =
    [0x07, 0x0C, 0x0E, 0x0A, 0x0B, 0x0D, 0x00, 0x01,
     0x06, 0x02, 0x0F, 0x03, 0x09, 0x04, 0x08, 0x05,
     0x00, 0x0F, 0x02, 0x08, 0x06, 0x09, 0x01, 0x0A,
     0x0E, 0x0C, 0x0B, 0x03, 0x04, 0x05, 0x07, 0x0D,
     0x07, 0x05, 0x0C, 0x04, 0x0F, 0x0D, 0x01, 0x09,
     0x08, 0x0A, 0x00, 0x03, 0x0B, 0x06, 0x0E, 0x02]"

definition CSEC_ENCRYPTED :: bytes where
  "CSEC_ENCRYPTED =
    [0x5A, 0x51, 0x7C, 0x40, 0x5F, 0x44, 0x7C, 0x02,
     0x90, 0x3B, 0xCC, 0x5E, 0x1D, 0x69, 0xDC, 0xF8,
     0x52, 0x2F, 0xE8, 0x75, 0xD0, 0xED, 0x7F, 0x97,
     0xF3, 0xEF, 0x1E, 0x23, 0x6E, 0x4F, 0x9D, 0x80,
     0x29, 0x87, 0x42, 0x89, 0xAD, 0xDC, 0xC3, 0xC2,
     0x23, 0xFF, 0xA3, 0x65, 0x55, 0xC2, 0x5D, 0xAF,
     0xF4, 0x93, 0x11, 0x96, 0xF1, 0x4D, 0xA7, 0xD9,
     0x12, 0xE6, 0x07, 0xEE, 0x15, 0xC0, 0x45, 0x24,
     0x26, 0x58, 0x5C, 0x1F, 0xB4, 0x50, 0x56, 0xE7,
     0x54, 0xBC, 0xE9, 0x49, 0xF6, 0xDA, 0xF0, 0x55]"

section \<open>Device lock\<close>

text \<open>
  A device identifier is a string or a byte array (\<open>keyDerivation\<close> accepts both and
  tells them apart by \<open>typeof\<close>).
\<close>

datatype device_id = DevString jsstring | DevBytes bytes

definition keyDerivation :: "device_id \<Rightarrow> bytes option" where
  "keyDerivation inputString =
    (let src = (case inputString of DevString s \<Rightarrow> textEncode s | DevBytes b \<Rightarrow> b);
         len0 = length src
     in if len0 = 0 then None
        else
          (let len = (if len0 > 128 then 128 else len0);
               buf = arraySet (replicate 128 0) (sliceArr src 0 len) 0;
               output = replicate 16 0
           in Some
             (if len \<ge> 16 then
                fold (\<lambda>i out.
                        out[i := toByte (fold (\<lambda>chunk val. val XOR byteAt buf (chunk * 16 + i))
                                           [0..<8] 0)])
                     [0..<16] output
              else
                (let output = fold (\<lambda>i out. out[i := src ! i]) [0..<len] output
                 in fold (\<lambda>j out.
                            out[len + j :=
                                  toByte (byteAt XOR_SEED (len + j) XOR byteAt src (j mod len))])
                         [0..<16 - len] output))))"

definition keyExpansion :: "bytes \<Rightarrow> bytes" where
  "keyExpansion key16 =
    fold (\<lambda>r out.
            fold (\<lambda>j out.
                    (let idx1 = EXPANSION_TABLE ! (2 * j + r * 16);
                         idx2 = EXPANSION_TABLE ! (2 * j + 1 + r * 16)
                     in out[r * 8 + j := toByte (byteAt key16 idx1 XOR byteAt key16 idx2)]))
                 [0..<8] out)
         [0..<3] (replicate 24 0)"

text \<open>
  The loop of \<open>tripleDesEncryptCBC\<close>, like \<open>cbcLoop\<close>; the chaining block \<open>prev\<close> is
  created with eight bytes.
\<close>

function tdesLoop ::
  "subkey list \<Rightarrow> subkey list \<Rightarrow> subkey list \<Rightarrow> bytes \<Rightarrow> bytes \<Rightarrow> js_error + bytes" where
  "tdesLoop sk1 sk2 sk3 prev dat =
    (if dat = [] then Inr []
     else
       (case desBlock (map (\<lambda>j. toByte (byteAt dat j XOR byteAt prev j)) [0..<8]) sk1 of
          Inl e \<Rightarrow> Inl e
        | Inr step1 \<Rightarrow>
            (case desDecryptBlock step1 sk2 of
               Inl e \<Rightarrow> Inl e
             | Inr step2 \<Rightarrow>
                 (case desBlock step2 sk3 of
                    Inl e \<Rightarrow> Inl e
                  | Inr step3 \<Rightarrow>
                      if length dat < 8 then Inl RangeError
                      else
                        (case tdesLoop sk1 sk2 sk3 (arraySet prev step3 0) (drop 8 dat) of
                           Inl e \<Rightarrow> Inl e
                         | Inr rest \<Rightarrow> Inr (step3 @ rest))))))"
  by pat_completeness auto
termination
  by (relation "measure (\<lambda>(sk1, sk2, sk3, prev, dat). length dat)") simp_all

declare tdesLoop.simps [simp del]

definition tripleDesEncryptCBC :: "bytes \<Rightarrow> bytes \<Rightarrow> js_error + bytes" where
  "tripleDesEncryptCBC dat key24 =
    (let sk1 = generateSubKeys (msbParity (sliceArr key24 0 8));
         sk2 = generateSubKeys (msbParity (sliceArr key24 8 16));
         sk3 = generateSubKeys (msbParity (sliceArr key24 16 24))
     in tdesLoop sk1 sk2 sk3 (replicate 8 0) dat)"

text \<open>
  The second block: \<open>secondData[j] = (keySlot[j] + firstData[15 - j]) & 0xFF\<close>. The sum of
  two bytes does not overflow 32 bits.
\<close>

definition lockedSecondData :: "bytes \<Rightarrow> bytes \<Rightarrow> bytes" where
  "lockedSecondData keySlot firstData =
    fold (\<lambda>j out. out[j := toByte ((byteAt keySlot j + byteAt firstData (15 - j)) AND 0xFF)])
         [0..<16] (replicate 16 0)"

text \<open>
  \<open>firstData\<close> stands for the sixteen bytes that \<open>crypto.getRandomValues\<close> writes into the
  fresh sixteen-byte array; the random source is the only input from outside.
\<close>

definition generateLockedCSEC :: "device_id \<Rightarrow> bytes \<Rightarrow> js_error + bytes" where
  "generateLockedCSEC deviceFullId firstData =
    (case keyDerivation deviceFullId of
       None \<Rightarrow> Inl EmptyDeviceKey
     | Some keySlot \<Rightarrow>
         (let secondData = lockedSecondData keySlot firstData;
              firstDataPadded = addYamahaPadding firstData
          in case encryptDES_CBC firstDataPadded DES_KEY_DUALSEAL DES_IV of
               Inl e \<Rightarrow> Inl e
             | Inr airi \<Rightarrow>
                 (let key24 = keyExpansion keySlot
                  in case tripleDesEncryptCBC secondData key24 of
                       Inl e \<Rightarrow> Inl e
                     | Inr aivf \<Rightarrow>
                         (let abcf = buildChunk (lit ''ABCF'') [0x00, 0x01];
                              airiChunk = buildChunk (lit ''AIRI'') airi;
                              aivfChunk = buildChunk (lit ''AIVF'') aivf;
                              abei = buildChunk (lit ''ABEI'') (concatArrays [airiChunk, aivfChunk]);
                              csecPlaintext = concatArrays [abcf, abei];
                              csecPadded = addYamahaPadding csecPlaintext
                          in encryptDES_CBC csecPadded DES_KEY DES_IV))))"

section \<open>Packs\<close>

record blob =
  uid :: jsstring
  title :: jsstring
  extension :: jsstring
  iconCode :: "jsstring option"
  binaryData :: bytes

record pack =
  uid :: jsstring
  title :: jsstring
  blobs :: "blob list"

subsection \<open>Parser\<close>

definition parseBlobEntry :: "chunk \<Rightarrow> blob" where
  "parseBlobEntry c =
    fold (\<lambda>s entry.
            if chunk_id s = lit ''EUID'' then entry\<lparr>blob.uid := chunkText s\<rparr>
            else if chunk_id s = lit ''ETIT'' then entry\<lparr>blob.title := chunkText s\<rparr>
            else if chunk_id s = lit ''EEXT'' then entry\<lparr>extension := chunkText s\<rparr>
            else if chunk_id s = lit ''EICO'' then entry\<lparr>iconCode := Some (chunkText s)\<rparr>
            else if chunk_id s = lit ''FBIN'' then entry\<lparr>binaryData := chunk_data s\<rparr>
            else entry)
         (readSubChunks c)
         \<lparr>blob.uid = [], blob.title = [], extension = [], iconCode = None, binaryData = []\<rparr>"

definition parsePPFRaw :: "bytes \<Rightarrow> pack" where
  "parsePPFRaw buf =
    (let chunks = readChunks buf 8 None;
         (uid, title, blobs) =
           fold (\<lambda>c (uid, title, blobs).
                   if chunk_id c = lit ''EUID'' \<and> uid = [] then (chunkText c, title, blobs)
                   else if chunk_id c = lit ''ETIT'' \<and> title = [] then (uid, chunkText c, blobs)
                   else if chunk_id c = lit ''BLOB'' then (uid, title, blobs @ [parseBlobEntry c])
                   else (uid, title, blobs))
                chunks ([], [], [])
     in \<lparr>pack.uid = uid, pack.title = title, blobs = blobs\<rparr>)"

subsection \<open>Encrypted CPI builder\<close>

text \<open>The container chunk built for one blob in the loop over \<open>packData.blobs\<close>.\<close>

definition blobChunk :: "blob \<Rightarrow> bytes" where
  "blobChunk b =
    (let blobParts =
           [buildTextChunk (lit ''EUID'') (blob.uid b),
            buildTextChunk (lit ''ETIT'') (blob.title b),
            buildTextChunk (lit ''EEXT'') (extension b)]
           @ (case iconCode b of
                None \<Rightarrow> []
              | Some ic \<Rightarrow> if ic \<noteq> [] then [buildTextChunk (lit ''EICO'') ic] else [])
           @ [buildChunk (lit ''FBIN'') (binaryData b)]
     in buildContainerChunk (lit ''BLOB'') blobParts)"

text \<open>Step 3 of \<open>buildEncryptedCPI\<close>: the plaintext payload.\<close>

definition payloadRaw :: "pack \<Rightarrow> bytes" where
  "payloadRaw packData =
    concatArrays
      ([buildTextChunk (lit ''EUID'') (pack.uid packData),
        buildTextChunk (lit ''ETIT'') (pack.title packData)]
       @ map blobChunk (blobs packData))"

text \<open>
  The test \<open>deviceFullId ? \<dots>\<close>: an absent identifier and the empty string are falsy, any
  other string and every array are truthy.
\<close>

definition isTruthy :: "device_id option \<Rightarrow> bool" where
  "isTruthy d = (case d of None \<Rightarrow> False | Some (DevString s) \<Rightarrow> s \<noteq> [] | Some (DevBytes b) \<Rightarrow> True)"

definition buildEncryptedCPI ::
  "pack \<Rightarrow> jsstring \<Rightarrow> u32 \<Rightarrow> device_id option \<Rightarrow> bytes \<Rightarrow> js_error + bytes" where
  "buildEncryptedCPI packData modelName packInstallId deviceFullId firstData =
    (let xmdlChunk = buildTextChunk (lit ''XMDL'') modelName;
         xpidData = writeUint32BE (replicate 4 0) 0 packInstallId;
         xpidChunk = buildChunk (lit ''XPID'') xpidData;
         xpihChunk = buildContainerChunk (lit ''XPIH'') [xmdlChunk, xpidChunk]
     in case (case deviceFullId of
                Some d \<Rightarrow> if isTruthy deviceFullId then generateLockedCSEC d firstData
                          else Inr CSEC_ENCRYPTED
              | None \<Rightarrow> Inr CSEC_ENCRYPTED) of
          Inl e \<Rightarrow> Inl e
        | Inr csecData \<Rightarrow>
            (let csecChunk = buildChunk (lit ''CSEC'') csecData;
                 payloadPadded = addYamahaPadding (payloadRaw packData)
             in case encryptDES_CBC payloadPadded DES_KEY DES_IV of
                  Inl e \<Rightarrow> Inl e
                | Inr payloadEncrypted \<Rightarrow>
                    Inr (concatArrays [xpihChunk, csecChunk, payloadEncrypted])))"

section \<open>Properties\<close>

lemma arraySet_replicate_0:
  "arraySet (replicate (length d + n) z) d 0 = d @ replicate n z"
  by (simp add: arraySet_def)

lemma replicate_Suc_update_last:
  "(d @ replicate (Suc k) z)[length d + k := v] = d @ replicate k z @ [v]"
  by (induction k) (simp_all add: list_update_append)

lemma addYamahaPadding_eq:
  "addYamahaPadding dat =
     dat @ replicate ((if length dat mod 8 = 0 then 8 else 8 - length dat mod 8) - 1) 0
         @ [of_nat (length dat mod 8)]"
proof -
  define k where "k = (if length dat mod 8 = 0 then 8 else 8 - length dat mod 8) - 1"
  have k: "(if length dat mod 8 = 0 then 8 else 8 - length dat mod 8) = Suc k"
    unfolding k_def by (simp add: Suc_leI)
  have "addYamahaPadding dat =
      (arraySet (replicate (length dat + Suc k) 0) dat 0)
        [length (arraySet (replicate (length dat + Suc k) 0) dat 0) - 1 := of_nat (length dat mod 8)]"
    unfolding addYamahaPadding_def Let_def k ..
  also have "\<dots> = (dat @ replicate (Suc k) 0)[length dat + k := of_nat (length dat mod 8)]"
    unfolding arraySet_replicate_0 by simp
  also have "\<dots> = dat @ replicate k 0 @ [of_nat (length dat mod 8)]"
    by (rule replicate_Suc_update_last)
  finally show ?thesis unfolding k_def .
qed

text \<open>
  C4. For a byte sequence of length L, the padding appends \<open>8 - L mod 8\<close> bytes when
  \<open>L mod 8\<close> is not zero and eight bytes when it is; the data stays in front, the padded
  length is a multiple of 8, and the last byte of the result is \<open>L mod 8\<close>.
\<close>

theorem addYamahaPadding_spec:
  "length (addYamahaPadding dat)
     = length dat + (if length dat mod 8 = 0 then 8 else 8 - length dat mod 8)
   \<and> take (length dat) (addYamahaPadding dat) = dat
   \<and> length (addYamahaPadding dat) mod 8 = 0
   \<and> unat (last (addYamahaPadding dat)) = length dat mod 8"
proof -
  let ?r = "length dat mod 8"
  have len: "length (addYamahaPadding dat) = length dat + (if ?r = 0 then 8 else 8 - ?r)"
    unfolding addYamahaPadding_eq by auto
  have pre: "take (length dat) (addYamahaPadding dat) = dat"
    unfolding addYamahaPadding_eq by simp
  have "(length dat + (if ?r = 0 then 8 else 8 - ?r)) mod 8 = 0"
    by presburger
  then have m8: "length (addYamahaPadding dat) mod 8 = 0"
    using len by simp
  have "last (addYamahaPadding dat) = (of_nat ?r :: byte)"
    unfolding addYamahaPadding_eq by simp
  moreover have "unat (of_nat ?r :: byte) = ?r"
    by (simp add: unat_of_nat)
  ultimately have lst: "unat (last (addYamahaPadding dat)) = ?r" by simp
  from len pre m8 lst show ?thesis by blast
qed

subsection \<open>Chunks as byte sequences\<close>

lemma length_arraySet:
  "pos + length src \<le> length target \<Longrightarrow> length (arraySet target src pos) = length target"
  by (simp add: arraySet_def)

lemma length_writeUint32BE: "length (writeUint32BE buf offset v) = length buf"
  by (simp add: writeUint32BE_def)

lemma writeUint32BE_fresh:
  "writeUint32BE (replicate 4 0) 0 v =
     [toByte (drop_bit 24 v AND 0xff), toByte (drop_bit 16 v AND 0xff),
      toByte (drop_bit 8 v AND 0xff), toByte (v AND 0xff)]"
  by (simp add: writeUint32BE_def eval_nat_numeral)

lemma writeUint32BE_at_4:
  assumes "length X = 4"
  shows "writeUint32BE (X @ replicate 4 0 @ R) 4 v = X @ writeUint32BE (replicate 4 0) 0 v @ R"
proof -
  from assms obtain x0 x1 x2 x3 where X: "X = [x0, x1, x2, x3]"
    by (auto simp: eval_nat_numeral length_Suc_conv)
  show ?thesis
    unfolding X by (simp add: writeUint32BE_def eval_nat_numeral)
qed

text \<open>The four tag bytes: the encoded identifier, cut or filled with zeros to four bytes.\<close>

lemma buildChunk_eq:
  "buildChunk ident dat =
     take 4 (textEncode ident @ replicate 4 0)
       @ writeUint32BE (replicate 4 0) 0 (of_nat (length dat)) @ dat"
proof -
  define tag where "tag = sliceArr (textEncode ident) 0 4"
  define X where "X = take 4 (textEncode ident @ replicate 4 0)"
  have lt: "length tag \<le> 4" by (simp add: tag_def sliceArr_def)
  have X: "X = tag @ replicate (4 - length tag) 0"
    by (simp add: X_def tag_def sliceArr_def min_def)
  have lX: "length X = 4" by (simp add: X_def)
  have "arraySet (replicate (8 + length dat) 0) tag 0 = tag @ replicate (8 + length dat - length tag) 0"
    by (simp add: arraySet_def)
  also have "\<dots> = X @ replicate 4 0 @ replicate (length dat) 0"
    using lt unfolding X by (simp flip: replicate_add)
  finally have s1: "arraySet (replicate (8 + length dat) 0) tag 0
      = X @ replicate 4 0 @ replicate (length dat) 0" .
  have s2: "writeUint32BE (X @ replicate 4 0 @ replicate (length dat) 0) 4 v
      = X @ writeUint32BE (replicate 4 0) 0 v @ replicate (length dat) 0" for v
    by (rule writeUint32BE_at_4[OF lX])
  have s3: "arraySet (X @ W @ replicate (length dat) 0) dat 8 = X @ W @ dat" if "length W = 4" for W
    using lX that by (simp add: arraySet_def)
  have "buildChunk ident dat =
      arraySet (X @ writeUint32BE (replicate 4 0) 0 (of_nat (length dat)) @ replicate (length dat) 0)
        dat 8"
    unfolding buildChunk_def Let_def tag_def[symmetric] s1 s2 ..
  also have "\<dots> = X @ writeUint32BE (replicate 4 0) 0 (of_nat (length dat)) @ dat"
    by (rule s3) (simp add: length_writeUint32BE)
  finally show ?thesis unfolding X_def .
qed

lemma length_buildChunk: "length (buildChunk ident dat) = 8 + length dat"
  by (simp add: buildChunk_eq length_writeUint32BE)

subsection \<open>Bytes and 32-bit halves\<close>

lemma u32_ff: "(0xff::u32) = mask 8"
  by (simp add: mask_eq_exp_minus_1)

lemma u32_of_its_bytes:
  fixes x :: u32
  shows "push_bit 24 (ucast (ucast (drop_bit 24 x AND mask 8) :: byte))
           OR push_bit 16 (ucast (ucast (drop_bit 16 x AND mask 8) :: byte))
           OR push_bit 8 (ucast (ucast (drop_bit 8 x AND mask 8) :: byte))
           OR ucast (ucast (x AND mask 8) :: byte) = x"
    (is "?l = x")
proof (rule bit_eqI)
  fix n
  assume "possible_bit TYPE(u32) n"
  then have n: "n < 32" by simp
  consider "n < 8" | "8 \<le> n \<and> n < 16" | "16 \<le> n \<and> n < 24" | "24 \<le> n \<and> n < 32"
    using n by arith
  then show "bit ?l n = bit x n"
    by cases (auto simp: bit_simps)
qed

lemma byte_of_u32:
  fixes b0 b1 b2 b3 :: byte
  defines "w \<equiv> push_bit 24 (ucast b0) OR push_bit 16 (ucast b1) OR push_bit 8 (ucast b2) OR (ucast b3 :: u32)"
  shows "(ucast (drop_bit 24 w AND mask 8) :: byte) = b0"
    and "(ucast (drop_bit 16 w AND mask 8) :: byte) = b1"
    and "(ucast (drop_bit 8 w AND mask 8) :: byte) = b2"
    and "(ucast (w AND mask 8) :: byte) = b3"
  unfolding w_def
  by (rule bit_eqI; auto simp: bit_simps dest: bit_imp_le_length)+

lemma replicate_8_zero: "replicate 8 (0::byte) = [0, 0, 0, 0, 0, 0, 0, 0]"
  by code_simp

lemma lrToBytes_fresh:
  "lrToBytes L R (replicate 8 0) 0 =
     [toByte (drop_bit 24 L AND 0xff), toByte (drop_bit 16 L AND 0xff),
      toByte (drop_bit 8 L AND 0xff), toByte (L AND 0xff),
      toByte (drop_bit 24 R AND 0xff), toByte (drop_bit 16 R AND 0xff),
      toByte (drop_bit 8 R AND 0xff), toByte (R AND 0xff)]"
  unfolding lrToBytes_def replicate_8_zero by (simp add: eval_nat_numeral)

lemma length_8_cases:
  assumes "length (xs :: 'a list) = 8"
  obtains x0 x1 x2 x3 x4 x5 x6 x7 where "xs = [x0, x1, x2, x3, x4, x5, x6, x7]"
  using assms by (auto simp: eval_nat_numeral length_Suc_conv)

lemma bytesToLR_8:
  "bytesToLR [x0, x1, x2, x3, x4, x5, x6, x7] 0 =
     (push_bit 24 (ucast x0) OR push_bit 16 (ucast x1) OR push_bit 8 (ucast x2) OR ucast x3,
      push_bit 24 (ucast x4) OR push_bit 16 (ucast x5) OR push_bit 8 (ucast x6) OR ucast x7)"
  by (simp add: bytesToLR_def byteAt_def)

lemma bytesToLR_lrToBytes:
  "bytesToLR (lrToBytes L R (replicate 8 0) 0) 0 = (L, R)"
  unfolding lrToBytes_fresh bytesToLR_8 toByte_def u32_ff u32_of_its_bytes ..

lemma lrToBytes_bytesToLR:
  assumes "length block = 8"
  shows "lrToBytes (fst (bytesToLR block 0)) (snd (bytesToLR block 0)) (replicate 8 0) 0 = block"
proof -
  from assms obtain x0 x1 x2 x3 x4 x5 x6 x7 where b: "block = [x0, x1, x2, x3, x4, x5, x6, x7]"
    by (rule length_8_cases)
  show ?thesis
    unfolding lrToBytes_fresh b bytesToLR_8 fst_conv snd_conv toByte_def u32_ff byte_of_u32 ..
qed

subsection \<open>The permutations undo each other\<close>

lemma deltaSwap_undo:
  fixes m :: u32
  assumes "take_bit (32 - k) m = m"
  shows "deltaSwap k m (deltaSwap k m p) = p"
proof -
  obtain a b where p: "p = (a, b)" by (cases p)
  define t where "t = (drop_bit k a XOR b) AND m"
  have t': "(drop_bit k (a XOR push_bit k t) XOR (b XOR t)) AND m = t"
    using assms t_def by (intro bit_eqI) (auto simp: bit_simps bit_eq_iff)
  have "deltaSwap k m p = (a XOR push_bit k t, b XOR t)"
    unfolding p deltaSwap_def Let_def fst_conv snd_conv t_def ..
  moreover have "deltaSwap k m (a XOR push_bit k t, b XOR t)
      = ((a XOR push_bit k t) XOR push_bit k t, (b XOR t) XOR t)"
    unfolding deltaSwap_def Let_def fst_conv snd_conv t' ..
  moreover have "(a XOR push_bit k t) XOR push_bit k t = a" and "(b XOR t) XOR t = b"
    by (simp_all add: xor.assoc)
  ultimately show ?thesis
    unfolding p by simp
qed

lemma deltaSwapRL_undo:
  fixes m :: u32
  assumes "take_bit (32 - k) m = m"
  shows "deltaSwapRL k m (deltaSwapRL k m p) = p"
proof -
  have rl: "deltaSwapRL k m q = prod.swap (deltaSwap k m (prod.swap q))" for q
    by (simp add: deltaSwapRL_def deltaSwap_def Let_def)
  show ?thesis
    unfolding rl by (simp add: deltaSwap_undo[OF assms])
qed

lemma initialPerm_steps:
  "initialPerm L R =
     deltaSwap 1 0x55555555 (deltaSwapRL 8 0x00FF00FF (deltaSwapRL 2 0x33333333
       (deltaSwap 16 0x0000FFFF (deltaSwap 4 0x0F0F0F0F (L, R)))))"
  unfolding initialPerm_def deltaSwap_def deltaSwapRL_def Let_def fst_conv snd_conv ..

lemma finalPerm_steps:
  "finalPerm L R =
     deltaSwap 4 0x0F0F0F0F (deltaSwap 16 0x0000FFFF (deltaSwapRL 2 0x33333333
       (deltaSwapRL 8 0x00FF00FF (deltaSwap 1 0x55555555 (L, R)))))"
  unfolding finalPerm_def deltaSwap_def deltaSwapRL_def Let_def fst_conv snd_conv ..

lemma deltaSwap_masks:
  "deltaSwap 1 0x55555555 (deltaSwap 1 0x55555555 p) = p"
  "deltaSwapRL 8 0x00FF00FF (deltaSwapRL 8 0x00FF00FF p) = p"
  "deltaSwapRL 2 0x33333333 (deltaSwapRL 2 0x33333333 p) = p"
  "deltaSwap 16 0x0000FFFF (deltaSwap 16 0x0000FFFF p) = p"
  "deltaSwap 4 0x0F0F0F0F (deltaSwap 4 0x0F0F0F0F p) = p"
  by (rule deltaSwap_undo deltaSwapRL_undo; simp)+

lemma finalPerm_initialPerm:
  "finalPerm (fst (initialPerm L R)) (snd (initialPerm L R)) = (L, R)"
  unfolding finalPerm_steps prod.collapse
  unfolding initialPerm_steps deltaSwap_masks ..

lemma initialPerm_finalPerm:
  "initialPerm (fst (finalPerm L R)) (snd (finalPerm L R)) = (L, R)"
  unfolding initialPerm_steps prod.collapse
  unfolding finalPerm_steps deltaSwap_masks ..
subsection \<open>The rounds undo each other\<close>

lemma desRound_undo: "desRound K (prod.swap (desRound K p)) = prod.swap p"
  by (cases p) (simp add: desRound_def xor.assoc)

lemma rounds_undo:
  "fold (\<lambda>i. desRound (ks ! i)) (rev order) (prod.swap (fold (\<lambda>i. desRound (ks ! i)) order p))
     = prod.swap p"
  by (induction order arbitrary: p) (simp_all add: desRound_undo)

lemma subKeyRounds_step:
  assumes "(push_bit r C OR drop_bit (28 - r) C) AND 0x0FFFFFFF = C'"
    and "(push_bit r D OR drop_bit (28 - r) D) AND 0x0FFFFFFF = D'"
    and "fold (\<lambda>i k. k OR push_bit (23 - i) (getBitCD C' D' (PC2 ! i))) [0..<24] 0 = kHi"
    and "fold (\<lambda>i k. k OR push_bit (23 - i) (getBitCD C' D' (PC2 ! (24 + i)))) [0..<24] 0 = kLo"
  shows "subKeyRounds (r # rs) C D = (kHi, kLo) # subKeyRounds rs C' D'"
  unfolding subKeyRounds.simps Let_def assms ..

lemma length_subKeyRounds: "length (subKeyRounds rs C D) = length rs"
proof (induction rs arbitrary: C D)
  case Nil
  show ?case by simp
next
  case (Cons r rs)
  show ?case
    unfolding subKeyRounds_step[OF refl refl refl refl]
    by (simp only: list.size Cons.IH)
qed

lemma length_generateSubKeys: "length (generateSubKeys keyBytes) = 16"
  unfolding generateSubKeys_def Let_def case_prod_beta length_subKeyRounds ROTATIONS_def
  by simp

lemma desBlock_Inr:
  assumes "16 \<le> length subKeys"
  shows "desBlock block subKeys =
    Inr (let p = fold (\<lambda>i. desRound (subKeys ! i)) [0..<16]
                   (initialPerm (fst (bytesToLR block 0)) (snd (bytesToLR block 0)));
             q = finalPerm (snd p) (fst p)
         in lrToBytes (fst q) (snd q) (replicate 8 0) 0)"
  using assms unfolding desBlock_def Let_def case_prod_beta by simp

lemma desDecryptBlock_Inr:
  assumes "16 \<le> length subKeys"
  shows "desDecryptBlock block subKeys =
    Inr (let p = fold (\<lambda>i. desRound (subKeys ! i)) (rev [0..<16])
                   (initialPerm (fst (bytesToLR block 0)) (snd (bytesToLR block 0)));
             q = finalPerm (snd p) (fst p)
         in lrToBytes (fst q) (snd q) (replicate 8 0) 0)"
  using assms unfolding desDecryptBlock_def Let_def case_prod_beta by simp

lemma des_decrypt_encrypt:
  assumes len: "length block = 8" and sk: "16 \<le> length subKeys"
  obtains c where "desBlock block subKeys = Inr c" and "desDecryptBlock c subKeys = Inr block"
proof -
  define p0 where "p0 = initialPerm (fst (bytesToLR block 0)) (snd (bytesToLR block 0))"
  define p where "p = fold (\<lambda>i. desRound (subKeys ! i)) [0..<16] p0"
  define q where "q = finalPerm (snd p) (fst p)"
  define c where "c = lrToBytes (fst q) (snd q) (replicate 8 0) 0"
  have enc: "desBlock block subKeys = Inr c"
    unfolding desBlock_Inr[OF sk] c_def q_def p_def p0_def Let_def ..
  have "bytesToLR c 0 = q"
    unfolding c_def bytesToLR_lrToBytes by simp
  then have "initialPerm (fst (bytesToLR c 0)) (snd (bytesToLR c 0)) = prod.swap p"
    unfolding q_def by (simp add: initialPerm_finalPerm prod.swap_def)
  then have "fold (\<lambda>i. desRound (subKeys ! i)) (rev [0..<16])
               (initialPerm (fst (bytesToLR c 0)) (snd (bytesToLR c 0))) = prod.swap p0"
    unfolding p_def by (simp only: rounds_undo)
  then have "desDecryptBlock c subKeys =
      Inr (let q' = finalPerm (fst p0) (snd p0) in lrToBytes (fst q') (snd q') (replicate 8 0) 0)"
    unfolding desDecryptBlock_Inr[OF sk] by (simp add: Let_def)
  also have "finalPerm (fst p0) (snd p0) = bytesToLR block 0"
    unfolding p0_def by (simp add: finalPerm_initialPerm)
  finally have dec: "desDecryptBlock c subKeys = Inr block"
    by (simp add: Let_def lrToBytes_bytesToLR[OF len])
  from enc dec show ?thesis by (rule that)
qed

subsection \<open>Lengths of the ciphertexts\<close>

lemma length_addYamahaPadding:
  "length (addYamahaPadding dat) = 8 * ((length dat + 1 + 7) div 8)"
proof -
  have "length (addYamahaPadding dat)
     = length dat + (if length dat mod 8 = 0 then 8 else 8 - length dat mod 8)"
    unfolding addYamahaPadding_eq by auto
  also have "\<dots> = 8 * ((length dat + 1 + 7) div 8)"
    by presburger
  finally show ?thesis .
qed
lemma length_lrToBytes: "length (lrToBytes L R buf off) = length buf"
  by (simp add: lrToBytes_def)

lemma length_lrToBytes_8: "length (lrToBytes L R (replicate 8 0) 0) = 8"
  unfolding length_lrToBytes by simp

lemma desBlock_length:
  assumes "16 \<le> length subKeys"
  shows "\<exists>c. desBlock block subKeys = Inr c \<and> length c = 8"
proof -
  define c where "c =
    (let p = fold (\<lambda>i. desRound (subKeys ! i)) [0..<16]
               (initialPerm (fst (bytesToLR block 0)) (snd (bytesToLR block 0)));
         q = finalPerm (snd p) (fst p)
     in lrToBytes (fst q) (snd q) (replicate 8 0) 0)"
  have "desBlock block subKeys = Inr c"
    unfolding c_def by (rule desBlock_Inr[OF assms])
  moreover have "length c = 8"
    unfolding c_def Let_def by (rule length_lrToBytes_8)
  ultimately show ?thesis by blast
qed

lemma desDecryptBlock_length:
  assumes "16 \<le> length subKeys"
  shows "\<exists>c. desDecryptBlock block subKeys = Inr c \<and> length c = 8"
proof -
  define c where "c =
    (let p = fold (\<lambda>i. desRound (subKeys ! i)) (rev [0..<16])
               (initialPerm (fst (bytesToLR block 0)) (snd (bytesToLR block 0)));
         q = finalPerm (snd p) (fst p)
     in lrToBytes (fst q) (snd q) (replicate 8 0) 0)"
  have "desDecryptBlock block subKeys = Inr c"
    unfolding c_def by (rule desDecryptBlock_Inr[OF assms])
  moreover have "length c = 8"
    unfolding c_def Let_def by (rule length_lrToBytes_8)
  ultimately show ?thesis by blast
qed
lemma cbcLoop_length:
  assumes "16 \<le> length subKeys" and "8 \<le> length prevBlock" and "length dat = 8 * n"
  shows "\<exists>out. cbcLoop subKeys prevBlock dat = Inr out \<and> length out = length dat"
  using assms(2,3)
proof (induction n arbitrary: prevBlock dat)
  case 0
  then show ?case by (simp add: cbcLoop.simps)
next
  case (Suc n)
  let ?block = "map (\<lambda>j. toByte (byteAt dat j XOR byteAt prevBlock j)) [0..<8]"
  obtain enc where enc: "desBlock ?block subKeys = Inr enc" and lenc: "length enc = 8"
    using desBlock_length[OF assms(1)] by blast
  have "8 \<le> length (arraySet prevBlock enc 0)"
    using Suc.prems(1) lenc by (simp add: arraySet_def)
  moreover have "length (drop 8 dat) = 8 * n"
    using Suc.prems(2) by simp
  ultimately obtain rest where rest: "cbcLoop subKeys (arraySet prevBlock enc 0) (drop 8 dat) = Inr rest"
      and lrest: "length rest = length (drop 8 dat)"
    using Suc.IH by blast
  have ne: "dat \<noteq> []" and l8: "\<not> length dat < 8"
    using Suc.prems(2) by auto
  have "cbcLoop subKeys prevBlock dat = Inr (enc @ rest)"
    using ne l8 Suc.prems(1) by (subst cbcLoop.simps) (simp add: enc rest)
  moreover have "length (enc @ rest) = length dat"
    using lenc lrest Suc.prems(2) by simp
  ultimately show ?case by blast
qed

lemma encryptDES_CBC_length:
  assumes "8 \<le> length iv" and "length dat mod 8 = 0"
  shows "\<exists>out. encryptDES_CBC dat keyBytes iv = Inr out \<and> length out = length dat"
proof -
  from assms(2) obtain n where "length dat = 8 * n" by (auto simp: mod_eq_0_iff_dvd)
  then show ?thesis
    unfolding encryptDES_CBC_def Let_def
    by (intro cbcLoop_length[OF _ assms(1)]) (simp_all add: length_generateSubKeys)
qed

lemma tdesLoop_length:
  assumes "16 \<le> length sk1" and "16 \<le> length sk2" and "16 \<le> length sk3"
    and "length dat = 8 * n"
  shows "\<exists>out. tdesLoop sk1 sk2 sk3 prev dat = Inr out \<and> length out = length dat"
  using assms(4)
proof (induction n arbitrary: prev dat)
  case 0
  then show ?case by (simp add: tdesLoop.simps)
next
  case (Suc n)
  let ?block = "map (\<lambda>j. toByte (byteAt dat j XOR byteAt prev j)) [0..<8]"
  obtain step1 where s1: "desBlock ?block sk1 = Inr step1"
    using desBlock_length[OF assms(1)] by blast
  obtain step2 where s2: "desDecryptBlock step1 sk2 = Inr step2"
    using desDecryptBlock_length[OF assms(2)] by blast
  obtain step3 where s3: "desBlock step2 sk3 = Inr step3" and l3: "length step3 = 8"
    using desBlock_length[OF assms(3)] by blast
  have "length (drop 8 dat) = 8 * n"
    using Suc.prems by simp
  then obtain rest where rest: "tdesLoop sk1 sk2 sk3 (arraySet prev step3 0) (drop 8 dat) = Inr rest"
      and lrest: "length rest = length (drop 8 dat)"
    using Suc.IH by blast
  have ne: "dat \<noteq> []" and l8: "\<not> length dat < 8"
    using Suc.prems by auto
  have "tdesLoop sk1 sk2 sk3 prev dat = Inr (step3 @ rest)"
    using ne l8 by (subst tdesLoop.simps) (simp add: s1 s2 s3 rest)
  moreover have "length (step3 @ rest) = length dat"
    using l3 lrest Suc.prems by simp
  ultimately show ?case by blast
qed

lemma tripleDesEncryptCBC_length:
  assumes "length dat mod 8 = 0"
  shows "\<exists>out. tripleDesEncryptCBC dat key24 = Inr out \<and> length out = length dat"
proof -
  from assms obtain n where "length dat = 8 * n" by (auto simp: mod_eq_0_iff_dvd)
  then show ?thesis
    unfolding tripleDesEncryptCBC_def Let_def
    by (intro tdesLoop_length) (simp_all add: length_generateSubKeys)
qed

subsection \<open>The known-answer test, round by round\<close>

text \<open>
  The standard test vector is evaluated in steps, so that every step is a small
  computation on numerals: the parity adjustment, the two halves after the 56-of-64
  selection, the sixteen subkeys and the sixteen rounds.
\<close>

lemma upt_0_16: "[0..<16] = [0, 1, 2, 3, 4, 5, 6, 7, 8, 9, 10, 11, 12, 13, 14, 15]"
  by code_simp

lemma upt_0_24:
  "[0..<24] = [0, 1, 2, 3, 4, 5, 6, 7, 8, 9, 10, 11, 12, 13, 14, 15, 16, 17, 18, 19, 20, 21, 22, 23]"
  by code_simp

lemma upt_0_28:
  "[0..<28] = [0, 1, 2, 3, 4, 5, 6, 7, 8, 9, 10, 11, 12, 13, 14, 15, 16, 17, 18, 19, 20, 21, 22, 23,
               24, 25, 26, 27]"
  by code_simp

lemma kat_parity:
  "msbParity [0x13, 0x34, 0x57, 0x79, 0x9B, 0xBC, 0xDF, 0xF1] = [0x13, 0x34, 0x57, 0x79, 0x9B, 0xBC, 0xDF, 0xF1]"
  by (simp add: msbParity_def msbParityByte_def toByte_def Let_def)

lemma kat_pc1:
  "fold (\<lambda>i (C, D).
           (C OR push_bit (27 - i) (getBit64 [0x13, 0x34, 0x57, 0x79, 0x9B, 0xBC, 0xDF, 0xF1] (PC1_C ! i)),
            D OR push_bit (27 - i) (getBit64 [0x13, 0x34, 0x57, 0x79, 0x9B, 0xBC, 0xDF, 0xF1] (PC1_D ! i))))
        [0..<28] (0, 0) = (0x0F0CCAAF, 0x0556678F)"
  by (simp add: upt_0_28 getBit64_def byteAt_def PC1_C_def PC1_D_def Let_def)

lemma kat_subkey_1:
  "subKeyRounds (1 # rs) 0x0F0CCAAF 0x0556678F = (0x1B02EF, 0xFC7072) # subKeyRounds rs 0x0E19955F 0x0AACCF1E"
  by (rule subKeyRounds_step) (simp_all add: upt_0_24 getBitCD_def PC2_def)

lemma kat_subkey_2:
  "subKeyRounds (1 # rs) 0x0E19955F 0x0AACCF1E = (0x79AED9, 0xDBC9E5) # subKeyRounds rs 0x0C332ABF 0x05599E3D"
  by (rule subKeyRounds_step) (simp_all add: upt_0_24 getBitCD_def PC2_def)

lemma kat_subkey_3:
  "subKeyRounds (2 # rs) 0x0C332ABF 0x05599E3D = (0x55FC8A, 0x42CF99) # subKeyRounds rs 0x00CCAAFF 0x056678F5"
  by (rule subKeyRounds_step) (simp_all add: upt_0_24 getBitCD_def PC2_def)

lemma kat_subkey_4:
  "subKeyRounds (2 # rs) 0x00CCAAFF 0x056678F5 = (0x72ADD6, 0xDB351D) # subKeyRounds rs 0x0332ABFC 0x0599E3D5"
  by (rule subKeyRounds_step) (simp_all add: upt_0_24 getBitCD_def PC2_def)

lemma kat_subkey_5:
  "subKeyRounds (2 # rs) 0x0332ABFC 0x0599E3D5 = (0x7CEC07, 0xEB53A8) # subKeyRounds rs 0x0CCAAFF0 0x06678F55"
  by (rule subKeyRounds_step) (simp_all add: upt_0_24 getBitCD_def PC2_def)

lemma kat_subkey_6:
  "subKeyRounds (2 # rs) 0x0CCAAFF0 0x06678F55 = (0x63A53E, 0x507B2F) # subKeyRounds rs 0x032ABFC3 0x099E3D55"
  by (rule subKeyRounds_step) (simp_all add: upt_0_24 getBitCD_def PC2_def)

lemma kat_subkey_7:
  "subKeyRounds (2 # rs) 0x032ABFC3 0x099E3D55 = (0xEC84B7, 0xF618BC) # subKeyRounds rs 0x0CAAFF0C 0x0678F556"
  by (rule subKeyRounds_step) (simp_all add: upt_0_24 getBitCD_def PC2_def)

lemma kat_subkey_8:
  "subKeyRounds (2 # rs) 0x0CAAFF0C 0x0678F556 = (0xF78A3A, 0xC13BFB) # subKeyRounds rs 0x02ABFC33 0x09E3D559"
  by (rule subKeyRounds_step) (simp_all add: upt_0_24 getBitCD_def PC2_def)

lemma kat_subkey_9:
  "subKeyRounds (1 # rs) 0x02ABFC33 0x09E3D559 = (0xE0DBEB, 0xEDE781) # subKeyRounds rs 0x0557F866 0x03C7AAB3"
  by (rule subKeyRounds_step) (simp_all add: upt_0_24 getBitCD_def PC2_def)

lemma kat_subkey_10:
  "subKeyRounds (2 # rs) 0x0557F866 0x03C7AAB3 = (0xB1F347, 0xBA464F) # subKeyRounds rs 0x055FE199 0x0F1EAACC"
  by (rule subKeyRounds_step) (simp_all add: upt_0_24 getBitCD_def PC2_def)

lemma kat_subkey_11:
  "subKeyRounds (2 # rs) 0x055FE199 0x0F1EAACC = (0x215FD3, 0xDED386) # subKeyRounds rs 0x057F8665 0x0C7AAB33"
  by (rule subKeyRounds_step) (simp_all add: upt_0_24 getBitCD_def PC2_def)

lemma kat_subkey_12:
  "subKeyRounds (2 # rs) 0x057F8665 0x0C7AAB33 = (0x7571F5, 0x9467E9) # subKeyRounds rs 0x05FE1995 0x01EAACCF"
  by (rule subKeyRounds_step) (simp_all add: upt_0_24 getBitCD_def PC2_def)

lemma kat_subkey_13:
  "subKeyRounds (2 # rs) 0x05FE1995 0x01EAACCF = (0x97C5D1, 0xFABA41) # subKeyRounds rs 0x07F86655 0x07AAB33C"
  by (rule subKeyRounds_step) (simp_all add: upt_0_24 getBitCD_def PC2_def)

lemma kat_subkey_14:
  "subKeyRounds (2 # rs) 0x07F86655 0x07AAB33C = (0x5F43B7, 0xF2E73A) # subKeyRounds rs 0x0FE19955 0x0EAACCF1"
  by (rule subKeyRounds_step) (simp_all add: upt_0_24 getBitCD_def PC2_def)

lemma kat_subkey_15:
  "subKeyRounds (2 # rs) 0x0FE19955 0x0EAACCF1 = (0xBF918D, 0x3D3F0A) # subKeyRounds rs 0x0F866557 0x0AAB33C7"
  by (rule subKeyRounds_step) (simp_all add: upt_0_24 getBitCD_def PC2_def)

lemma kat_subkey_16:
  "subKeyRounds (1 # rs) 0x0F866557 0x0AAB33C7 = (0xCB3D8B, 0x0E17F5) # subKeyRounds rs 0x0F0CCAAF 0x0556678F"
  by (rule subKeyRounds_step) (simp_all add: upt_0_24 getBitCD_def PC2_def)

lemma kat_schedule:
  "generateSubKeys [0x13, 0x34, 0x57, 0x79, 0x9B, 0xBC, 0xDF, 0xF1] =
     [(0x1B02EF, 0xFC7072),
      (0x79AED9, 0xDBC9E5),
      (0x55FC8A, 0x42CF99),
      (0x72ADD6, 0xDB351D),
      (0x7CEC07, 0xEB53A8),
      (0x63A53E, 0x507B2F),
      (0xEC84B7, 0xF618BC),
      (0xF78A3A, 0xC13BFB),
      (0xE0DBEB, 0xEDE781),
      (0xB1F347, 0xBA464F),
      (0x215FD3, 0xDED386),
      (0x7571F5, 0x9467E9),
      (0x97C5D1, 0xFABA41),
      (0x5F43B7, 0xF2E73A),
      (0xBF918D, 0x3D3F0A),
      (0xCB3D8B, 0x0E17F5)]"
  unfolding generateSubKeys_def kat_pc1 ROTATIONS_def Let_def prod.case
  by (simp only: subKeyRounds.simps(1)
        kat_subkey_1 kat_subkey_2 kat_subkey_3 kat_subkey_4 kat_subkey_5 kat_subkey_6
        kat_subkey_7 kat_subkey_8 kat_subkey_9 kat_subkey_10 kat_subkey_11 kat_subkey_12
        kat_subkey_13 kat_subkey_14 kat_subkey_15 kat_subkey_16)

lemma kat_round_1:
  "desRound (0x1B02EF, 0xFC7072) (0xCC00CCFF, 0xF0AAF0AA) = (0xF0AAF0AA, 0xEF4A6544)"
  by (simp add: desRound_def desF_def spAt_def Let_def
        SP1_def SP2_def SP3_def SP4_def SP5_def SP6_def SP7_def SP8_def)

lemma kat_round_2:
  "desRound (0x79AED9, 0xDBC9E5) (0xF0AAF0AA, 0xEF4A6544) = (0xEF4A6544, 0xCC017709)"
  by (simp add: desRound_def desF_def spAt_def Let_def
        SP1_def SP2_def SP3_def SP4_def SP5_def SP6_def SP7_def SP8_def)

lemma kat_round_3:
  "desRound (0x55FC8A, 0x42CF99) (0xEF4A6544, 0xCC017709) = (0xCC017709, 0xA25C0BF4)"
  by (simp add: desRound_def desF_def spAt_def Let_def
        SP1_def SP2_def SP3_def SP4_def SP5_def SP6_def SP7_def SP8_def)

lemma kat_round_4:
  "desRound (0x72ADD6, 0xDB351D) (0xCC017709, 0xA25C0BF4) = (0xA25C0BF4, 0x77220045)"
  by (simp add: desRound_def desF_def spAt_def Let_def
        SP1_def SP2_def SP3_def SP4_def SP5_def SP6_def SP7_def SP8_def)

lemma kat_round_5:
  "desRound (0x7CEC07, 0xEB53A8) (0xA25C0BF4, 0x77220045) = (0x77220045, 0x8A4FA637)"
  by (simp add: desRound_def desF_def spAt_def Let_def
        SP1_def SP2_def SP3_def SP4_def SP5_def SP6_def SP7_def SP8_def)

lemma kat_round_6:
  "desRound (0x63A53E, 0x507B2F) (0x77220045, 0x8A4FA637) = (0x8A4FA637, 0xE967CD69)"
  by (simp add: desRound_def desF_def spAt_def Let_def
        SP1_def SP2_def SP3_def SP4_def SP5_def SP6_def SP7_def SP8_def)

lemma kat_round_7:
  "desRound (0xEC84B7, 0xF618BC) (0x8A4FA637, 0xE967CD69) = (0xE967CD69, 0x064ABA10)"
  by (simp add: desRound_def desF_def spAt_def Let_def
        SP1_def SP2_def SP3_def SP4_def SP5_def SP6_def SP7_def SP8_def)

lemma kat_round_8:
  "desRound (0xF78A3A, 0xC13BFB) (0xE967CD69, 0x064ABA10) = (0x064ABA10, 0xD5694B90)"
  by (simp add: desRound_def desF_def spAt_def Let_def
        SP1_def SP2_def SP3_def SP4_def SP5_def SP6_def SP7_def SP8_def)

lemma kat_round_9:
  "desRound (0xE0DBEB, 0xEDE781) (0x064ABA10, 0xD5694B90) = (0xD5694B90, 0x247CC67A)"
  by (simp add: desRound_def desF_def spAt_def Let_def
        SP1_def SP2_def SP3_def SP4_def SP5_def SP6_def SP7_def SP8_def)

lemma kat_round_10:
  "desRound (0xB1F347, 0xBA464F) (0xD5694B90, 0x247CC67A) = (0x247CC67A, 0xB7D5D7B2)"
  by (simp add: desRound_def desF_def spAt_def Let_def
        SP1_def SP2_def SP3_def SP4_def SP5_def SP6_def SP7_def SP8_def)

lemma kat_round_11:
  "desRound (0x215FD3, 0xDED386) (0x247CC67A, 0xB7D5D7B2) = (0xB7D5D7B2, 0xC5783C78)"
  by (simp add: desRound_def desF_def spAt_def Let_def
        SP1_def SP2_def SP3_def SP4_def SP5_def SP6_def SP7_def SP8_def)

lemma kat_round_12:
  "desRound (0x7571F5, 0x9467E9) (0xB7D5D7B2, 0xC5783C78) = (0xC5783C78, 0x75BD1858)"
  by (simp add: desRound_def desF_def spAt_def Let_def
        SP1_def SP2_def SP3_def SP4_def SP5_def SP6_def SP7_def SP8_def)

lemma kat_round_13:
  "desRound (0x97C5D1, 0xFABA41) (0xC5783C78, 0x75BD1858) = (0x75BD1858, 0x18C3155A)"
  by (simp add: desRound_def desF_def spAt_def Let_def
        SP1_def SP2_def SP3_def SP4_def SP5_def SP6_def SP7_def SP8_def)

lemma kat_round_14:
  "desRound (0x5F43B7, 0xF2E73A) (0x75BD1858, 0x18C3155A) = (0x18C3155A, 0xC28C960D)"
  by (simp add: desRound_def desF_def spAt_def Let_def
        SP1_def SP2_def SP3_def SP4_def SP5_def SP6_def SP7_def SP8_def)

lemma kat_round_15:
  "desRound (0xBF918D, 0x3D3F0A) (0x18C3155A, 0xC28C960D) = (0xC28C960D, 0x43423234)"
  by (simp add: desRound_def desF_def spAt_def Let_def
        SP1_def SP2_def SP3_def SP4_def SP5_def SP6_def SP7_def SP8_def)

lemma kat_round_16:
  "desRound (0xCB3D8B, 0x0E17F5) (0xC28C960D, 0x43423234) = (0x43423234, 0x0A4CD995)"
  by (simp add: desRound_def desF_def spAt_def Let_def
        SP1_def SP2_def SP3_def SP4_def SP5_def SP6_def SP7_def SP8_def)

lemma kat_rounds:
  "fold (\<lambda>i. desRound
           ([(0x1B02EF, 0xFC7072),
             (0x79AED9, 0xDBC9E5),
             (0x55FC8A, 0x42CF99),
             (0x72ADD6, 0xDB351D),
             (0x7CEC07, 0xEB53A8),
             (0x63A53E, 0x507B2F),
             (0xEC84B7, 0xF618BC),
             (0xF78A3A, 0xC13BFB),
             (0xE0DBEB, 0xEDE781),
             (0xB1F347, 0xBA464F),
             (0x215FD3, 0xDED386),
             (0x7571F5, 0x9467E9),
             (0x97C5D1, 0xFABA41),
             (0x5F43B7, 0xF2E73A),
             (0xBF918D, 0x3D3F0A),
             (0xCB3D8B, 0x0E17F5)] ! i))
        [0..<16] (0xCC00CCFF, 0xF0AAF0AA) = (0x43423234, 0x0A4CD995)"
  unfolding upt_0_16
  by (simp add:
        kat_round_1 kat_round_2 kat_round_3 kat_round_4 kat_round_5 kat_round_6 kat_round_7
        kat_round_8 kat_round_9 kat_round_10 kat_round_11 kat_round_12 kat_round_13
        kat_round_14 kat_round_15 kat_round_16)

text \<open>
  C1. The standard test vector: the block 01 23 45 67 89 AB CD EF under the key
  13 34 57 79 9B BC DF F1, with the key passed through \<open>msbParity\<close> and
  \<open>generateSubKeys\<close>, is encrypted by \<open>desBlock\<close> to 85 E8 13 54 0F 0A B4 05.
\<close>

theorem des_known_answer:
  "desBlock [0x01, 0x23, 0x45, 0x67, 0x89, 0xAB, 0xCD, 0xEF]
     (generateSubKeys (msbParity [0x13, 0x34, 0x57, 0x79, 0x9B, 0xBC, 0xDF, 0xF1]))
   = Inr [0x85, 0xE8, 0x13, 0x54, 0x0F, 0x0A, 0xB4, 0x05]"
proof -
  have start: "bytesToLR [0x01, 0x23, 0x45, 0x67, 0x89, 0xAB, 0xCD, 0xEF] 0 = (0x01234567, 0x89ABCDEF)"
    by (simp add: bytesToLR_def byteAt_def)
  have ip: "initialPerm 0x01234567 0x89ABCDEF = (0xCC00CCFF, 0xF0AAF0AA)"
    by (simp add: initialPerm_def Let_def)
  have fp: "finalPerm 0x0A4CD995 0x43423234 = (0x85E81354, 0x0F0AB405)"
    by (simp add: finalPerm_def Let_def)
  have out: "lrToBytes 0x85E81354 0x0F0AB405 (replicate 8 0) 0
      = [0x85, 0xE8, 0x13, 0x54, 0x0F, 0x0A, 0xB4, 0x05]"
    unfolding lrToBytes_fresh by (simp add: toByte_def)
  show ?thesis
    unfolding kat_parity kat_schedule desBlock_def
    by (simp add: start ip kat_rounds fp out)
qed

text \<open>
  C3. For every 8-byte block and every key, with \<open>subKeys\<close> the schedule that
  \<open>generateSubKeys\<close> derives from the parity-adjusted key, \<open>desBlock\<close> returns a
  ciphertext block and \<open>desDecryptBlock\<close> of that block under the same schedule returns
  the original block.
\<close>

theorem des_block_roundtrip:
  assumes "length block = 8" and "subKeys = generateSubKeys (msbParity key)"
  shows "\<exists>c. desBlock block subKeys = Inr c \<and> desDecryptBlock c subKeys = Inr block"
proof -
  have "16 \<le> length subKeys"
    using assms(2) by (simp add: length_generateSubKeys)
  with assms(1) show ?thesis
    by (rule des_decrypt_encrypt) blast
qed

theorem des_block_roundtrip_witness:
  "length [0x01, 0x23, 0x45, 0x67, 0x89, 0xAB, 0xCD, 0xEF :: byte] = 8
   \<and> (\<exists>c. desBlock [0x01, 0x23, 0x45, 0x67, 0x89, 0xAB, 0xCD, 0xEF]
              (generateSubKeys (msbParity [0x46, 0x6F, 0x61, 0x74, 0x66, 0x6B, 0x69, 0x6F])) = Inr c
          \<and> desDecryptBlock c
              (generateSubKeys (msbParity [0x46, 0x6F, 0x61, 0x74, 0x66, 0x6B, 0x69, 0x6F]))
            = Inr [0x01, 0x23, 0x45, 0x67, 0x89, 0xAB, 0xCD, 0xEF])"
  using des_block_roundtrip
    [of "[0x01, 0x23, 0x45, 0x67, 0x89, 0xAB, 0xCD, 0xEF]" _ "[0x46, 0x6F, 0x61, 0x74, 0x66, 0x6B, 0x69, 0x6F]",
     OF _ refl]
  by simp

subsection \<open>Device lock\<close>

lemma length_fold_update:
  assumes "\<And>i out. length (f i out) = length out"
  shows "length (fold f xs out) = length out"
  by (induction xs arbitrary: out) (simp_all add: assms)

lemma utf8EncodeCodePoint_not_Nil: "utf8EncodeCodePoint c \<noteq> []"
  by (simp add: utf8EncodeCodePoint_def Let_def)

lemma textEncode_Nil_iff: "textEncode s = [] \<longleftrightarrow> s = []"
  by (cases s) (simp_all add: textEncode_def utf8EncodeCodePoint_not_Nil)

lemma keyDerivation_None_iff:
  "keyDerivation d = None \<longleftrightarrow> d = DevString [] \<or> d = DevBytes []"
  by (cases d) (simp_all add: keyDerivation_def Let_def textEncode_Nil_iff)

lemma keyDerivation_length:
  assumes "keyDerivation d = Some keySlot"
  shows "length keySlot = 16"
proof -
  have "length (fold (\<lambda>i out. out[g i := h i]) xs out) = length out"
    for g :: "nat \<Rightarrow> nat" and h :: "nat \<Rightarrow> byte" and xs out
    by (rule length_fold_update) simp
  with assms show ?thesis
    by (auto simp: keyDerivation_def Let_def split: if_splits)
qed

lemma length_lockedSecondData: "length (lockedSecondData keySlot firstData) = 16"
  unfolding lockedSecondData_def by (subst length_fold_update) simp_all

lemma fold_update_nth:
  assumes "j < n" and "n \<le> length out"
  shows "fold (\<lambda>i out. out[i := g i]) [0..<n] out ! j = g j"
  using assms
proof (induction n)
  case 0
  then show ?case by simp
next
  case (Suc n)
  have len: "length (fold (\<lambda>i out. out[i := g i]) [0..<n] out) = length out"
    by (rule length_fold_update) simp
  show ?case
  proof (cases "j = n")
    case True
    with Suc.prems len show ?thesis by simp
  next
    case False
    with Suc show ?thesis by simp
  qed
qed

lemma unat_ucast_byte: "unat (ucast (a :: byte) :: u32) = unat a"
proof -
  have "unat a < 2 ^ 8" using unsigned_less[of a] by simp
  then have "unat a < 2 ^ 32" by simp
  then show ?thesis
    by (simp add: unsigned_ucast_eq take_bit_nat_eq_self)
qed
lemma low_byte: "toByte (s AND 0xFF) = toByte s"
  unfolding toByte_def u32_ff by (rule bit_eqI) (simp add: bit_simps)
lemma byte_sum_low:
  fixes a b :: byte
  shows "toByte ((ucast a + ucast b) AND 0xFF) = a + b"
proof -
  define s :: u32 where "s = ucast a + ucast b"
  have "unat s = (unat a + unat b) mod 2 ^ 32"
    unfolding s_def by (simp add: unat_word_ariths unat_ucast_byte)
  moreover have "toByte s = of_nat (unat s)"
    unfolding toByte_def by (simp add: of_nat_unat)
  moreover have "(of_nat (n mod 2 ^ 32) :: byte) = of_nat n" for n :: nat
  proof -
    have "take_bit 8 (n mod 2 ^ 32) = take_bit 8 n"
      by (simp add: take_bit_eq_mod mod_mod_cancel)
    then show ?thesis
      unfolding word_of_nat_eq_iff by simp
  qed
  moreover have "(of_nat (unat a + unat b) :: byte) = a + b"
    by simp
  ultimately show ?thesis
    unfolding low_byte s_def[symmetric] by simp
qed
lemma unat_byte_sum:
  fixes a b :: byte
  shows "unat (a + b) = (unat a + unat b) mod 256"
  by (simp add: unat_word_ariths)

lemma generateLockedCSEC_Inr:
  assumes kd: "keyDerivation d = Some keySlot" and fd: "length firstData = 16"
  shows "\<exists>airi aivf blob.
           encryptDES_CBC (addYamahaPadding firstData) DES_KEY_DUALSEAL DES_IV = Inr airi
         \<and> length airi = 24
         \<and> tripleDesEncryptCBC (lockedSecondData keySlot firstData) (keyExpansion keySlot) = Inr aivf
         \<and> length aivf = 16
         \<and> encryptDES_CBC
               (addYamahaPadding
                  (concatArrays
                     [buildChunk (lit ''ABCF'') [0x00, 0x01],
                      buildChunk (lit ''ABEI'')
                        (concatArrays [buildChunk (lit ''AIRI'') airi, buildChunk (lit ''AIVF'') aivf])]))
               DES_KEY DES_IV = Inr blob
         \<and> generateLockedCSEC d firstData = Inr blob
         \<and> length blob = 80"
proof -
  have iv: "8 \<le> length DES_IV" by (simp add: DES_IV_def)
  have "length (addYamahaPadding firstData) = 24"
    unfolding length_addYamahaPadding fd by simp
  then obtain airi where airi: "encryptDES_CBC (addYamahaPadding firstData) DES_KEY_DUALSEAL DES_IV = Inr airi"
      and lairi: "length airi = 24"
    using encryptDES_CBC_length[OF iv, of "addYamahaPadding firstData" DES_KEY_DUALSEAL] by auto
  obtain aivf where aivf:
      "tripleDesEncryptCBC (lockedSecondData keySlot firstData) (keyExpansion keySlot) = Inr aivf"
      and laivf: "length aivf = 16"
    using tripleDesEncryptCBC_length[of "lockedSecondData keySlot firstData" "keyExpansion keySlot"]
    by (auto simp: length_lockedSecondData)
  define plain where "plain =
    concatArrays
      [buildChunk (lit ''ABCF'') [0x00, 0x01],
       buildChunk (lit ''ABEI'')
         (concatArrays [buildChunk (lit ''AIRI'') airi, buildChunk (lit ''AIVF'') aivf])]"
  have "length plain = 74"
    unfolding plain_def by (simp add: concatArrays_def length_buildChunk lairi laivf)
  then have "length (addYamahaPadding plain) = 80"
    unfolding length_addYamahaPadding by simp
  then obtain blob where blob: "encryptDES_CBC (addYamahaPadding plain) DES_KEY DES_IV = Inr blob"
      and lblob: "length blob = 80"
    using encryptDES_CBC_length[OF iv, of "addYamahaPadding plain" DES_KEY] by auto
  have "generateLockedCSEC d firstData = Inr blob"
    unfolding generateLockedCSEC_def kd option.case Let_def airi aivf sum.case
    using blob unfolding plain_def .
  with airi lairi aivf laivf blob lblob show ?thesis
    unfolding plain_def by blast
qed

text \<open>
  C6. For a non-empty device identifier and the sixteen random bytes \<open>firstData\<close>, byte
  \<open>j\<close> of the second block is \<open>(keySlot[j] + firstData[15 - j]) mod 256\<close> for every
  \<open>j\<close> in 0..15; this block is what Triple-DES encrypts into AIVF inside the blob, and
  the blob that \<open>generateLockedCSEC\<close> returns has exactly 80 bytes.
\<close>

theorem generateLockedCSEC_second_block:
  assumes "d \<noteq> DevString []" and "d \<noteq> DevBytes []" and "length firstData = 16"
  shows "\<exists>keySlot airi aivf blob.
           keyDerivation d = Some keySlot
         \<and> (\<forall>j<16. unat (lockedSecondData keySlot firstData ! j)
                       = (unat (keySlot ! j) + unat (firstData ! (15 - j))) mod 256)
         \<and> encryptDES_CBC (addYamahaPadding firstData) DES_KEY_DUALSEAL DES_IV = Inr airi
         \<and> tripleDesEncryptCBC (lockedSecondData keySlot firstData) (keyExpansion keySlot) = Inr aivf
         \<and> encryptDES_CBC
               (addYamahaPadding
                  (concatArrays
                     [buildChunk (lit ''ABCF'') [0x00, 0x01],
                      buildChunk (lit ''ABEI'')
                        (concatArrays [buildChunk (lit ''AIRI'') airi, buildChunk (lit ''AIVF'') aivf])]))
               DES_KEY DES_IV = Inr blob
         \<and> generateLockedCSEC d firstData = Inr blob
         \<and> length blob = 80"
proof -
  from assms(1,2) obtain keySlot where kd: "keyDerivation d = Some keySlot"
    using keyDerivation_None_iff[of d] by auto
  have lk: "length keySlot = 16" by (rule keyDerivation_length[OF kd])
  have second: "unat (lockedSecondData keySlot firstData ! j)
      = (unat (keySlot ! j) + unat (firstData ! (15 - j))) mod 256" if "j < 16" for j
  proof -
    have "lockedSecondData keySlot firstData ! j
        = toByte ((byteAt keySlot j + byteAt firstData (15 - j)) AND 0xFF)"
      unfolding lockedSecondData_def using that by (intro fold_update_nth) simp_all
    also have "\<dots> = keySlot ! j + firstData ! (15 - j)"
    proof -
      have "j < length keySlot" using that lk by simp
      moreover have "15 - j < length firstData" using assms(3) by arith
      ultimately show ?thesis
        unfolding byteAt_def by (simp only: if_True byte_sum_low)
    qed
    finally show ?thesis by (simp add: unat_byte_sum)
  qed
  from generateLockedCSEC_Inr[OF kd assms(3)] kd second show ?thesis
    by blast
qed

theorem generateLockedCSEC_second_block_witness:
  "DevString (lit ''abc'') \<noteq> DevString [] \<and> DevString (lit ''abc'') \<noteq> DevBytes []
   \<and> length (replicate 16 (7::byte)) = 16
   \<and> (\<exists>blob. generateLockedCSEC (DevString (lit ''abc'')) (replicate 16 7) = Inr blob
              \<and> length blob = 80)"
proof -
  have a: "DevString (lit ''abc'') \<noteq> DevString []" by (simp add: lit_def)
  have b: "DevString (lit ''abc'') \<noteq> DevBytes []" by simp
  have c: "length (replicate 16 (7::byte)) = 16" by simp
  from generateLockedCSEC_second_block[OF a b c] a b c show ?thesis by blast
qed

text \<open>
  C9. Key derivation returns no key exactly for the empty identifier (the empty string or
  the empty byte array), and \<open>generateLockedCSEC\<close> raises, with "Empty device key",
  exactly then; for every other identifier \<open>keyDerivation\<close> returns a key of sixteen
  bytes and \<open>generateLockedCSEC\<close> returns a blob.
\<close>

theorem keyDerivation_fails_iff_empty:
  assumes "length firstData = 16"
  shows "(keyDerivation d = None \<longleftrightarrow> d = DevString [] \<or> d = DevBytes [])
       \<and> ((\<exists>e. generateLockedCSEC d firstData = Inl e) \<longleftrightarrow> d = DevString [] \<or> d = DevBytes [])
       \<and> (d = DevString [] \<or> d = DevBytes [] \<longrightarrow> generateLockedCSEC d firstData = Inl EmptyDeviceKey)
       \<and> (d \<noteq> DevString [] \<and> d \<noteq> DevBytes [] \<longrightarrow>
            (\<exists>keySlot blob. keyDerivation d = Some keySlot \<and> length keySlot = 16
                           \<and> generateLockedCSEC d firstData = Inr blob))"
proof (cases "d = DevString [] \<or> d = DevBytes []")
  case True
  then have kd: "keyDerivation d = None" by (simp add: keyDerivation_None_iff)
  then have "generateLockedCSEC d firstData = Inl EmptyDeviceKey"
    by (simp add: generateLockedCSEC_def)
  with True kd show ?thesis by auto
next
  case False
  then obtain keySlot where kd: "keyDerivation d = Some keySlot"
    using keyDerivation_None_iff[of d] by auto
  have lk: "length keySlot = 16" by (rule keyDerivation_length[OF kd])
  from generateLockedCSEC_Inr[OF kd assms] obtain blob
    where "generateLockedCSEC d firstData = Inr blob" by blast
  with False kd lk show ?thesis by auto
qed

theorem keyDerivation_fails_iff_empty_witness:
  "length (replicate 16 (0::byte)) = 16
   \<and> keyDerivation (DevString []) = None
   \<and> generateLockedCSEC (DevString []) (replicate 16 0) = Inl EmptyDeviceKey
   \<and> keyDerivation (DevBytes [0x41]) \<noteq> None
   \<and> (\<exists>blob. generateLockedCSEC (DevBytes [0x41]) (replicate 16 0) = Inr blob)"
proof -
  have c: "length (replicate 16 (0::byte)) = 16" by simp
  from keyDerivation_fails_iff_empty[OF c, of "DevString []"]
       keyDerivation_fails_iff_empty[OF c, of "DevBytes [0x41]"] c
  show ?thesis by auto
qed

subsection \<open>Container assembly\<close>

lemma encrypt_payload:
  "\<exists>enc. encryptDES_CBC (addYamahaPadding (payloadRaw p)) DES_KEY DES_IV = Inr enc
        \<and> length enc = 8 * ((length (payloadRaw p) + 1 + 7) div 8)"
proof -
  have iv: "8 \<le> length DES_IV" by (simp add: DES_IV_def)
  have "length (addYamahaPadding (payloadRaw p)) mod 8 = 0"
    unfolding length_addYamahaPadding by simp
  from encryptDES_CBC_length[OF iv this, of DES_KEY] show ?thesis
    unfolding length_addYamahaPadding by blast
qed

lemma buildEncryptedCPI_constant_path:
  assumes "\<not> isTruthy dev"
    and "encryptDES_CBC (addYamahaPadding (payloadRaw p)) DES_KEY DES_IV = Inr enc"
  shows "buildEncryptedCPI p modelName installId dev firstData =
     Inr (buildContainerChunk (lit ''XPIH'')
            [buildTextChunk (lit ''XMDL'') modelName,
             buildChunk (lit ''XPID'') (writeUint32BE (replicate 4 0) 0 installId)]
          @ buildChunk (lit ''CSEC'') CSEC_ENCRYPTED @ enc)"
  using assms
  by (cases dev) (simp_all add: buildEncryptedCPI_def Let_def concatArrays_def)












text \<open>
  C10, as the code has it. Called with the empty string as device identifier,
  \<open>buildEncryptedCPI\<close> returns a container and returns the same as with no identifier,
  whatever the random source would give: the constant CSEC blob is used and
  \<open>generateLockedCSEC\<close>, hence \<open>keyDerivation\<close>, is not called. For no string
  identifier does \<open>buildEncryptedCPI\<close> raise "Empty device key": through a string the
  empty-identifier failure of \<open>keyDerivation\<close> cannot be reached.
\<close>

theorem buildEncryptedCPI_empty_string:
  assumes "length firstData = 16"
  shows "(\<exists>out. buildEncryptedCPI p modelName installId (Some (DevString [])) anyData = Inr out
              \<and> buildEncryptedCPI p modelName installId None otherData = Inr out)
       \<and> (\<exists>enc. buildEncryptedCPI p modelName installId (Some (DevString [])) anyData =
              Inr (buildContainerChunk (lit ''XPIH'')
                     [buildTextChunk (lit ''XMDL'') modelName,
                      buildChunk (lit ''XPID'') (writeUint32BE (replicate 4 0) 0 installId)]
                   @ buildChunk (lit ''CSEC'') CSEC_ENCRYPTED @ enc))
       \<and> (\<forall>s. buildEncryptedCPI p modelName installId (Some (DevString s)) firstData
              \<noteq> Inl EmptyDeviceKey)"
proof -
  from encrypt_payload[of p] obtain enc
    where enc: "encryptDES_CBC (addYamahaPadding (payloadRaw p)) DES_KEY DES_IV = Inr enc"
    by blast
  have f1: "\<not> isTruthy (Some (DevString []))" and f2: "\<not> isTruthy None"
    by (simp_all add: isTruthy_def)
  note e1 = buildEncryptedCPI_constant_path[OF f1 enc, of modelName installId anyData]
  note e2 = buildEncryptedCPI_constant_path[OF f2 enc, of modelName installId otherData]
  have "buildEncryptedCPI p modelName installId (Some (DevString s)) firstData \<noteq> Inl EmptyDeviceKey"
    for s
  proof (cases "s = []")
    case True
    with buildEncryptedCPI_constant_path[OF f1 enc, of modelName installId firstData]
    show ?thesis by simp
  next
    case False
    then obtain keySlot where kd: "keyDerivation (DevString s) = Some keySlot"
      using keyDerivation_None_iff[of "DevString s"] by auto
    from generateLockedCSEC_Inr[OF kd assms] obtain blob
      where "generateLockedCSEC (DevString s) firstData = Inr blob" by blast
    with False enc show ?thesis
      by (simp add: buildEncryptedCPI_def Let_def isTruthy_def)
  qed
  then have never: "\<forall>s. buildEncryptedCPI p modelName installId (Some (DevString s)) firstData
      \<noteq> Inl EmptyDeviceKey" ..
  have same: "\<exists>out. buildEncryptedCPI p modelName installId (Some (DevString [])) anyData = Inr out
              \<and> buildEncryptedCPI p modelName installId None otherData = Inr out"
    unfolding e1 e2 by simp
  have shape: "\<exists>enc. buildEncryptedCPI p modelName installId (Some (DevString [])) anyData =
              Inr (buildContainerChunk (lit ''XPIH'')
                     [buildTextChunk (lit ''XMDL'') modelName,
                      buildChunk (lit ''XPID'') (writeUint32BE (replicate 4 0) 0 installId)]
                   @ buildChunk (lit ''CSEC'') CSEC_ENCRYPTED @ enc)"
    by (rule exI[of _ enc]) (rule e1)
  from same shape never show ?thesis by (intro conjI)
qed

theorem buildEncryptedCPI_empty_string_witness:
  "length (replicate 16 (0::byte)) = 16
   \<and> (\<exists>out. buildEncryptedCPI \<lparr>pack.uid = lit ''P1'', pack.title = lit ''Test'', blobs = []\<rparr>
               (lit ''MODELX'') 7 (Some (DevString [])) [] = Inr out
           \<and> buildEncryptedCPI \<lparr>pack.uid = lit ''P1'', pack.title = lit ''Test'', blobs = []\<rparr>
               (lit ''MODELX'') 7 None [] = Inr out)
   \<and> buildEncryptedCPI \<lparr>pack.uid = lit ''P1'', pack.title = lit ''Test'', blobs = []\<rparr>
        (lit ''MODELX'') 7 (Some (DevString (lit ''abc''))) (replicate 16 0) \<noteq> Inl EmptyDeviceKey"
proof -
  have c: "length (replicate 16 (0::byte)) = 16" by simp
  from buildEncryptedCPI_empty_string
         [OF c, of "\<lparr>pack.uid = lit ''P1'', pack.title = lit ''Test'', blobs = []\<rparr>"
            "lit ''MODELX''" 7 "[]" "[]"] c
  show ?thesis by (elim conjE) (intro conjI; simp)
qed

text \<open>
  C10 as stated fails in its last part: the failure of \<open>keyDerivation\<close> on the empty
  identifier is reachable through \<open>buildEncryptedCPI\<close>. An empty byte array is an
  object, hence truthy; \<open>generateLockedCSEC\<close> is called, \<open>keyDerivation\<close> returns
  \<open>null\<close> for it and "Empty device key" is raised.
\<close>

theorem buildEncryptedCPI_empty_bytes_counterexample:
  "buildEncryptedCPI \<lparr>pack.uid = lit ''P1'', pack.title = lit ''Test'', blobs = []\<rparr>
     (lit ''MODELX'') 7 (Some (DevBytes [])) (replicate 16 0) = Inl EmptyDeviceKey"
  by (simp add: buildEncryptedCPI_def Let_def isTruthy_def generateLockedCSEC_def
        keyDerivation_def)

subsection \<open>The chunk reader\<close>

lemma readChunksLoop_unfold:
  "readChunksLoop buf pos endOff =
    (if pos + 8 \<le> endOff then
       (case readChunkAt buf pos endOff of
          None \<Rightarrow> []
        | Some (c, dataEnd) \<Rightarrow> c # readChunksLoop buf dataEnd endOff)
     else [])"
  by (rule readChunksLoop.simps)

lemma readChunkAt_Some:
  assumes "readChunkAt buf pos endOff = Some (c, dataEnd)"
  defines "p \<equiv> skipToNextTag buf pos endOff"
  shows "p + 8 \<le> endOff"
    and "readFourCC buf p \<in> set KNOWN_TAGS"
    and "dataEnd = min (p + 8 + unat (readUint32BE buf (p + 4))) endOff"
    and "c = \<lparr>chunk_id = readFourCC buf p, chunk_size = readUint32BE buf (p + 4),
              chunk_data = sliceArr buf (p + 8) dataEnd, chunk_offset = p\<rparr>"
proof -
  have a: "p + 8 \<le> endOff \<and> readFourCC buf p \<in> set KNOWN_TAGS"
    and b: "dataEnd = min (p + 8 + unat (readUint32BE buf (p + 4))) endOff"
    and c': "c = \<lparr>chunk_id = readFourCC buf p, chunk_size = readUint32BE buf (p + 4),
              chunk_data = sliceArr buf (p + 8) (min (p + 8 + unat (readUint32BE buf (p + 4))) endOff),
              chunk_offset = p\<rparr>"
    using assms(1) unfolding readChunkAt_def Let_def p_def[symmetric]
    by (auto split: if_splits)
  have c: "c = \<lparr>chunk_id = readFourCC buf p, chunk_size = readUint32BE buf (p + 4),
              chunk_data = sliceArr buf (p + 8) dataEnd, chunk_offset = p\<rparr>"
    unfolding b by (rule c')
  from a show "p + 8 \<le> endOff" and "readFourCC buf p \<in> set KNOWN_TAGS" by simp_all
  from b show "dataEnd = min (p + 8 + unat (readUint32BE buf (p + 4))) endOff" .
  from c show "c = \<lparr>chunk_id = readFourCC buf p, chunk_size = readUint32BE buf (p + 4),
              chunk_data = sliceArr buf (p + 8) dataEnd, chunk_offset = p\<rparr>" .
qed

lemma readChunksLoop_stop:
  assumes "\<not> pos + 8 \<le> endOff \<or> readChunkAt buf pos endOff = None"
  shows "readChunksLoop buf pos endOff = []"
  using assms by (subst readChunksLoop_unfold) auto

lemma readChunksLoop_step:
  assumes "pos + 8 \<le> endOff" and "readChunkAt buf pos endOff = Some (c, dataEnd)"
  shows "readChunksLoop buf pos endOff = c # readChunksLoop buf dataEnd endOff"
  using assms by (subst readChunksLoop_unfold) simp

lemma readChunksLoop_safe:
  assumes "c \<in> set (readChunksLoop buf pos endOff)"
  shows "chunk_id c \<in> set KNOWN_TAGS
       \<and> pos \<le> chunk_offset c
       \<and> chunk_offset c + 8 \<le> endOff
       \<and> chunk_data c =
           sliceArr buf (chunk_offset c + 8) (min (chunk_offset c + 8 + unat (chunk_size c)) endOff)"
  using assms
proof (induction buf pos endOff rule: readChunksLoop.induct)
  case (1 buf pos endOff)
  show ?case
  proof (cases "pos + 8 \<le> endOff \<and> readChunkAt buf pos endOff \<noteq> None")
    case False
    then have "readChunksLoop buf pos endOff = []"
      by (intro readChunksLoop_stop) blast
    with "1.prems" show ?thesis by simp
  next
    case True
    then obtain c0 dataEnd where le: "pos + 8 \<le> endOff"
      and at: "readChunkAt buf pos endOff = Some (c0, dataEnd)"
      by auto
    define p where "p = skipToNextTag buf pos endOff"
    note facts = readChunkAt_Some[OF at, folded p_def]
    have ge: "pos \<le> p" unfolding p_def by (rule skipToNextTag_ge)
    from "1.prems" have mem: "c = c0 \<or> c \<in> set (readChunksLoop buf dataEnd endOff)"
      unfolding readChunksLoop_step[OF le at] by simp
    then show ?thesis
    proof
      assume "c = c0"
      with facts ge show ?thesis by simp
    next
      assume "c \<in> set (readChunksLoop buf dataEnd endOff)"
      from "1.IH"[OF le at refl this] readChunkAt_progress[OF at le]
      show ?thesis by simp
    qed
  qed
qed


lemma skipToNextTag_stop:
  assumes "\<not> pos < endOff \<or> isKnownTag buf pos"
  shows "skipToNextTag buf pos endOff = pos"
  using assms by (subst skipToNextTag.simps) auto

lemma skipToNextTag_step:
  assumes "pos < endOff" and "\<not> isKnownTag buf pos"
  shows "skipToNextTag buf pos endOff = skipToNextTag buf (pos + 1) endOff"
  using assms by (subst skipToNextTag.simps) simp

lemma skipToNextTag_known:
  assumes "skipToNextTag buf pos endOff < endOff"
  shows "isKnownTag buf (skipToNextTag buf pos endOff)"
  using assms
proof (induction buf pos endOff rule: skipToNextTag.induct)
  case (1 buf pos endOff)
  show ?case
  proof (cases "pos < endOff \<and> \<not> isKnownTag buf pos")
    case True
    then have eq: "skipToNextTag buf pos endOff = skipToNextTag buf (pos + 1) endOff"
      by (intro skipToNextTag_step) simp_all
    from "1.IH" True "1.prems" show ?thesis unfolding eq by simp
  next
    case False
    then have eq: "skipToNextTag buf pos endOff = pos"
      by (intro skipToNextTag_stop) auto
    from False "1.prems" show ?thesis unfolding eq by auto
  qed
qed

text \<open>Searching in a shorter range finds the same tag, or none.\<close>

lemma skipToNextTag_truncate:
  assumes "e' \<le> e"
  shows "skipToNextTag buf pos e' =
    (if skipToNextTag buf pos e < e' then skipToNextTag buf pos e else max pos e')"
  using assms
proof (induction buf pos e rule: skipToNextTag.induct)
  case (1 buf pos e)
  show ?case
  proof (cases "pos < e \<and> \<not> isKnownTag buf pos")
    case True
    then have eq: "skipToNextTag buf pos e = skipToNextTag buf (pos + 1) e"
      by (intro skipToNextTag_step) simp_all
    have ge: "pos + 1 \<le> skipToNextTag buf (pos + 1) e" by (rule skipToNextTag_ge)
    show ?thesis
    proof (cases "pos < e'")
      case lt: True
      with True have "skipToNextTag buf pos e' = skipToNextTag buf (pos + 1) e'"
        by (intro skipToNextTag_step) simp_all
      with "1.IH" True "1.prems" lt show ?thesis unfolding eq by (simp add: max_def)
    next
      case ge': False
      then have "skipToNextTag buf pos e' = pos"
        by (intro skipToNextTag_stop) simp
      with ge ge' show ?thesis unfolding eq by (simp add: max_def)
    qed
  next
    case False
    then have eq: "skipToNextTag buf pos e = pos"
      by (intro skipToNextTag_stop) auto
    from False "1.prems" have "skipToNextTag buf pos e' = pos"
      by (intro skipToNextTag_stop) auto
    then show ?thesis unfolding eq by (simp add: max_def)
  qed
qed

lemma readChunkAt_None_iff:
  "readChunkAt buf pos endOff = None \<longleftrightarrow> endOff < skipToNextTag buf pos endOff + 8"
proof -
  have "readFourCC buf (skipToNextTag buf pos endOff) \<in> set KNOWN_TAGS"
    if "skipToNextTag buf pos endOff + 8 \<le> endOff"
    using skipToNextTag_known[of buf pos endOff] that by (simp add: isKnownTag_def split: if_splits)
  then show ?thesis
    unfolding readChunkAt_def Let_def by auto
qed

lemma readChunksLoop_offsets_ge:
  assumes "e' < pos + 8"
  shows "takeWhile (\<lambda>c. chunk_offset c + 8 \<le> e') (readChunksLoop buf pos e) = []"
proof (cases "readChunksLoop buf pos e")
  case Nil
  then show ?thesis by simp
next
  case (Cons c cs)
  then have "c \<in> set (readChunksLoop buf pos e)" by simp
  from readChunksLoop_safe[OF this] assms show ?thesis unfolding Cons by simp
qed

text \<open>
  Reading up to an earlier end gives the chunks whose header lies before that end, in the
  same order, each with its payload clipped to the earlier end.
\<close>

lemma readChunksLoop_truncate:
  assumes "e' \<le> e"
  shows "readChunksLoop buf pos e' =
    map (\<lambda>c. c\<lparr>chunk_data :=
                 sliceArr buf (chunk_offset c + 8) (min (chunk_offset c + 8 + unat (chunk_size c)) e')\<rparr>)
        (takeWhile (\<lambda>c. chunk_offset c + 8 \<le> e') (readChunksLoop buf pos e))"
  using assms
proof (induction buf pos e rule: readChunksLoop.induct)
  case (1 buf pos e)
  let ?clip = "\<lambda>c. c\<lparr>chunk_data :=
                 sliceArr buf (chunk_offset c + 8) (min (chunk_offset c + 8 + unat (chunk_size c)) e')\<rparr>"
  let ?in = "\<lambda>c. chunk_offset c + 8 \<le> e'"
  define p where "p = skipToNextTag buf pos e"
  define p' where "p' = skipToNextTag buf pos e'"
  have pp': "p' = (if p < e' then p else max pos e')"
    unfolding p_def p'_def by (rule skipToNextTag_truncate[OF "1.prems"])
  show ?case
  proof (cases "pos + 8 \<le> e'")
    case False
    then have "readChunksLoop buf pos e' = []"
      by (intro readChunksLoop_stop) simp
    moreover have "takeWhile ?in (readChunksLoop buf pos e) = []"
      using False by (intro readChunksLoop_offsets_ge) simp
    ultimately show ?thesis by simp
  next
    case le': True
    with "1.prems" have le: "pos + 8 \<le> e" by simp
    show ?thesis
    proof (cases "readChunkAt buf pos e")
      case None
      then have "e < p + 8" unfolding p_def by (simp add: readChunkAt_None_iff)
      with pp' "1.prems" le' have "e' < p' + 8" by (simp split: if_splits)
      then have "readChunkAt buf pos e' = None"
        unfolding p'_def by (simp add: readChunkAt_None_iff)
      then have "readChunksLoop buf pos e' = []"
        by (intro readChunksLoop_stop) simp
      moreover from None have "readChunksLoop buf pos e = []"
        by (intro readChunksLoop_stop) simp
      ultimately show ?thesis by simp
    next
      case (Some x)
      obtain c d where x: "x = (c, d)" by (cases x)
      note at = Some[unfolded x]
      note facts = readChunkAt_Some[OF at, folded p_def]
      have run: "readChunksLoop buf pos e = c # readChunksLoop buf d e"
        by (rule readChunksLoop_step[OF le at])
      show ?thesis
      proof (cases "p + 8 \<le> e'")
        case False
        with pp' le' have "e' < p' + 8" by (simp split: if_splits)
        then have "readChunkAt buf pos e' = None"
          unfolding p'_def by (simp add: readChunkAt_None_iff)
        then have "readChunksLoop buf pos e' = []"
          by (intro readChunksLoop_stop) simp
        moreover from False facts(4) have "takeWhile ?in (readChunksLoop buf pos e) = []"
          unfolding run by simp
        ultimately show ?thesis by simp
      next
        case inp: True
        then have peq: "p' = p" using pp' by simp
        define d' where "d' = min (p + 8 + unat (readUint32BE buf (p + 4))) e'"
        have "readChunkAt buf pos e' \<noteq> None"
          using inp unfolding readChunkAt_None_iff p'_def[symmetric] peq by simp
        then obtain c' d2 where at': "readChunkAt buf pos e' = Some (c', d2)" by auto
        note facts' = readChunkAt_Some[OF at', folded p'_def, unfolded peq]
        have d2: "d2 = d'" unfolding d'_def by (rule facts'(3))
        have c': "c' = ?clip c"
          unfolding facts'(4) facts(4) d2 d'_def by simp
        have run': "readChunksLoop buf pos e' = c' # readChunksLoop buf d' e'"
          using readChunksLoop_step[OF le' at'] unfolding d2 .
        have IH: "readChunksLoop buf d e' = map ?clip (takeWhile ?in (readChunksLoop buf d e))"
          by (rule "1.IH"[OF le at refl "1.prems"])
        have tail: "readChunksLoop buf d' e' = readChunksLoop buf d e'"
        proof (cases "d \<le> e'")
          case True
          then have "d' = d" unfolding d'_def facts(3) using "1.prems" by linarith
          then show ?thesis by simp
        next
          case False
          then have "d' = e'" unfolding d'_def facts(3) using "1.prems" by linarith
          moreover have "readChunksLoop buf e' e' = []"
            by (intro readChunksLoop_stop) simp
          moreover from False have "readChunksLoop buf d e' = []"
            by (intro readChunksLoop_stop) simp
          ultimately show ?thesis by simp
        qed
        from inp facts(4) have "?in c" by simp
        then show ?thesis
          unfolding run run' tail IH c' by simp
      qed
    qed
  qed
qed


lemma length_sliceArr_le: "a + length (sliceArr buf a b) \<le> max a b"
  by (simp add: sliceArr_def)

text \<open>
  C7. \<open>readChunks\<close> is a total function (its loop ends at \<open>dataEnd\<close>, at least eight
  bytes further on each turn) and has no error result. For every buffer and all bounds,
  every chunk it returns has a recognized tag, starts at or after \<open>startOffset\<close>, has
  its eight header bytes before the end, and has as payload exactly the bytes from the
  end of the header to \<open>min (payloadStart + declared length, end)\<close>, so the payload
  ends at or before the end and is never longer than declared. Read with an earlier end,
  the reader returns the chunks whose header lies before that end, in the same order,
  each clipped to that end.
\<close>

theorem readChunks_safe:
  fixes buf :: bytes and startOffset :: nat and endOffset :: "nat option"
  defines "endPos \<equiv> (case endOffset of None \<Rightarrow> length buf | Some e \<Rightarrow> e)"
  shows "(\<forall>c \<in> set (readChunks buf startOffset endOffset).
            chunk_id c \<in> set KNOWN_TAGS
          \<and> startOffset \<le> chunk_offset c
          \<and> chunk_offset c + 8 \<le> endPos
          \<and> chunk_data c =
                sliceArr buf (chunk_offset c + 8) (min (chunk_offset c + 8 + unat (chunk_size c)) endPos)
          \<and> chunk_offset c + 8 + length (chunk_data c) \<le> endPos
          \<and> length (chunk_data c) \<le> unat (chunk_size c))
       \<and> (\<forall>e' \<le> endPos.
            readChunks buf startOffset (Some e') =
              map (\<lambda>c. c\<lparr>chunk_data :=
                           sliceArr buf (chunk_offset c + 8)
                             (min (chunk_offset c + 8 + unat (chunk_size c)) e')\<rparr>)
                  (takeWhile (\<lambda>c. chunk_offset c + 8 \<le> e') (readChunks buf startOffset endOffset)))"
proof (intro conjI ballI allI impI)
  fix c
  assume "c \<in> set (readChunks buf startOffset endOffset)"
  then have mem: "c \<in> set (readChunksLoop buf startOffset endPos)"
    unfolding readChunks_def endPos_def .
  note safe = readChunksLoop_safe[OF mem]
  from safe show "chunk_id c \<in> set KNOWN_TAGS" by simp
  from safe show "startOffset \<le> chunk_offset c" by simp
  from safe show hdr: "chunk_offset c + 8 \<le> endPos" by simp
  from safe show dat: "chunk_data c =
      sliceArr buf (chunk_offset c + 8) (min (chunk_offset c + 8 + unat (chunk_size c)) endPos)"
    by simp
  define stop where "stop = min (chunk_offset c + 8 + unat (chunk_size c)) endPos"
  have len: "length (chunk_data c) = length (sliceArr buf (chunk_offset c + 8) stop)"
    unfolding stop_def using dat by simp
  have "chunk_offset c + 8 + length (chunk_data c) \<le> max (chunk_offset c + 8) stop"
    unfolding len by (rule length_sliceArr_le)
  with hdr show "chunk_offset c + 8 + length (chunk_data c) \<le> endPos"
    unfolding stop_def by simp
  show "length (chunk_data c) \<le> unat (chunk_size c)"
    unfolding len stop_def by (simp add: sliceArr_def)
next
  fix e'
  assume "e' \<le> endPos"
  from readChunksLoop_truncate[OF this, of buf startOffset]
  show "readChunks buf startOffset (Some e') =
      map (\<lambda>c. c\<lparr>chunk_data :=
                   sliceArr buf (chunk_offset c + 8)
                     (min (chunk_offset c + 8 + unat (chunk_size c)) e')\<rparr>)
          (takeWhile (\<lambda>c. chunk_offset c + 8 \<le> e') (readChunks buf startOffset endOffset))"
    unfolding readChunks_def endPos_def by simp
qed

lemma readChunks_example:
  "readChunks [0x45, 0x55, 0x49, 0x44, 0x00, 0x00, 0x00, 0x09, 0x41, 0x42] 0 None =
     [\<lparr>chunk_id = lit ''EUID'', chunk_size = 9, chunk_data = [0x41, 0x42], chunk_offset = 0\<rparr>]"
  by code_simp

theorem readChunks_safe_witness:
  "readChunks [0x45, 0x55, 0x49, 0x44, 0x00, 0x00, 0x00, 0x09, 0x41, 0x42] 0 None =
     [\<lparr>chunk_id = lit ''EUID'', chunk_size = 9, chunk_data = [0x41, 0x42], chunk_offset = 0\<rparr>]
   \<and> lit ''EUID'' \<in> set KNOWN_TAGS
   \<and> (0::nat) + 8 + length [0x41, 0x42 :: byte] \<le> 10
   \<and> (9::nat) \<le> 10
   \<and> readChunks [0x45, 0x55, 0x49, 0x44, 0x00, 0x00, 0x00, 0x09, 0x41, 0x42] 0 (Some 9) =
       [\<lparr>chunk_id = lit ''EUID'', chunk_size = 9, chunk_data = [0x41], chunk_offset = 0\<rparr>]"
proof -
  let ?buf = "[0x45, 0x55, 0x49, 0x44, 0x00, 0x00, 0x00, 0x09, 0x41, 0x42] :: bytes"
  note inst = readChunks_safe[of ?buf 0 None, unfolded readChunks_example]
  from inst have "lit ''EUID'' \<in> set KNOWN_TAGS" by simp
  moreover from inst have "readChunks ?buf 0 (Some 9) =
       [\<lparr>chunk_id = lit ''EUID'', chunk_size = 9, chunk_data = [0x41], chunk_offset = 0\<rparr>]"
    by (simp add: sliceArr_def)
  ultimately show ?thesis
    using readChunks_example by simp
qed

subsection \<open>Reading behind a prefix\<close>

lemma byteAt_append: "byteAt (pre @ buf) (length pre + i) = byteAt buf i"
  by (simp add: byteAt_def)

lemma sliceArr_append:
  "sliceArr (pre @ buf) (length pre + a) (length pre + b) = sliceArr buf a b"
  by (simp add: sliceArr_def)

lemma readFourCC_append: "readFourCC (pre @ buf) (length pre + q) = readFourCC buf q"
proof -
  have "sliceArr (pre @ buf) (length pre + q) (length pre + q + 4) = sliceArr buf q (q + 4)"
    using sliceArr_append[of pre buf q "q + 4"] by (simp add: add.assoc)
  then show ?thesis by (simp add: readFourCC_def)
qed

lemma readUint32BE_append: "readUint32BE (pre @ buf) (length pre + q) = readUint32BE buf q"
  unfolding readUint32BE_def add.assoc byteAt_append ..

lemma isKnownTag_append: "isKnownTag (pre @ buf) (length pre + q) = isKnownTag buf q"
  by (simp add: isKnownTag_def readFourCC_append)

lemma skipToNextTag_append:
  "skipToNextTag (pre @ buf) (length pre + pos) (length pre + e) = length pre + skipToNextTag buf pos e"
proof (induction buf pos e rule: skipToNextTag.induct)
  case (1 buf pos e)
  show ?case
  proof (cases "pos < e \<and> \<not> isKnownTag buf pos")
    case True
    then have "skipToNextTag buf pos e = skipToNextTag buf (pos + 1) e"
      by (intro skipToNextTag_step) simp_all
    moreover from True have "skipToNextTag (pre @ buf) (length pre + pos) (length pre + e)
        = skipToNextTag (pre @ buf) (length pre + pos + 1) (length pre + e)"
      by (intro skipToNextTag_step) (simp_all add: isKnownTag_append)
    ultimately show ?thesis using "1.IH" True by (simp add: add.assoc)
  next
    case False
    then have "skipToNextTag buf pos e = pos"
      by (intro skipToNextTag_stop) auto
    moreover from False have "skipToNextTag (pre @ buf) (length pre + pos) (length pre + e)
        = length pre + pos"
      by (intro skipToNextTag_stop) (auto simp: isKnownTag_append)
    ultimately show ?thesis by simp
  qed
qed

lemma readChunkAt_append:
  "readChunkAt (pre @ buf) (length pre + pos) (length pre + e) =
     map_option (\<lambda>(c, d). (c\<lparr>chunk_offset := length pre + chunk_offset c\<rparr>, length pre + d))
       (readChunkAt buf pos e)"
proof -
  define p where "p = skipToNextTag buf pos e"
  have sk: "skipToNextTag (pre @ buf) (length pre + pos) (length pre + e) = length pre + p"
    unfolding p_def by (rule skipToNextTag_append)
  have f: "readFourCC (pre @ buf) (length pre + p) = readFourCC buf p"
    by (rule readFourCC_append)
  have u: "readUint32BE (pre @ buf) (length pre + p + 4) = readUint32BE buf (p + 4)"
    using readUint32BE_append[of pre buf "p + 4"] by (simp add: add.assoc)
  have m: "min (length pre + p + 8 + n) (length pre + e) = length pre + min (p + 8 + n) e" for n
    by (simp add: min_def)
  have s: "sliceArr (pre @ buf) (length pre + p + 8) (length pre + min (p + 8 + n) e)
      = sliceArr buf (p + 8) (min (p + 8 + n) e)" for n
    unfolding add.assoc by (rule sliceArr_append)
  show ?thesis
    unfolding readChunkAt_def Let_def sk p_def[symmetric] f u m s
    by simp
qed

lemma readChunksLoop_append:
  "readChunksLoop (pre @ buf) (length pre + pos) (length pre + e) =
     map (\<lambda>c. c\<lparr>chunk_offset := length pre + chunk_offset c\<rparr>) (readChunksLoop buf pos e)"
proof (induction buf pos e rule: readChunksLoop.induct)
  case (1 buf pos e)
  show ?case
  proof (cases "pos + 8 \<le> e \<and> readChunkAt buf pos e \<noteq> None")
    case False
    then have "readChunksLoop buf pos e = []"
      by (intro readChunksLoop_stop) blast
    moreover from False have "\<not> pos + 8 \<le> e \<or> readChunkAt buf pos e = None" by blast
    then have "readChunksLoop (pre @ buf) (length pre + pos) (length pre + e) = []"
      by (intro readChunksLoop_stop) (auto simp: readChunkAt_append)
    ultimately show ?thesis by simp
  next
    case True
    then obtain c d where le: "pos + 8 \<le> e" and at: "readChunkAt buf pos e = Some (c, d)"
      by auto
    have at': "readChunkAt (pre @ buf) (length pre + pos) (length pre + e)
        = Some (c\<lparr>chunk_offset := length pre + chunk_offset c\<rparr>, length pre + d)"
      unfolding readChunkAt_append at by simp
    have le': "length pre + pos + 8 \<le> length pre + e" using le by simp
    show ?thesis
      unfolding readChunksLoop_step[OF le at] readChunksLoop_step[OF le' at']
      using "1.IH"[OF le at refl] by simp
  qed
qed


subsection \<open>Reading a chunk that was built\<close>

lemma known_tag_bytes:
  assumes "ident \<in> set KNOWN_TAGS"
  shows "length (textEncode ident) = 4" and "textDecoderDecode (textEncode ident) = ident"
  using assms
  by (auto simp: KNOWN_TAGS_def lit_def textEncode_def utf8EncodeCodePoint_def
        textDecoderDecode_def asciiDecodeByte_def)

lemma readUint32BE_written:
  "readUint32BE (writeUint32BE (replicate 4 0) 0 v @ rest) 0 = v"
  unfolding writeUint32BE_fresh
  by (simp add: readUint32BE_def byteAt_def toByte_def u32_ff u32_of_its_bytes)

lemma unat_of_nat_u32: "n < 2 ^ 32 \<Longrightarrow> unat (of_nat n :: u32) = n"
  by (simp add: unat_of_nat take_bit_nat_eq_self)

lemma readChunkAt_built:
  assumes "ident \<in> set KNOWN_TAGS" and "length dat < 2 ^ 32"
  shows "readChunkAt (buildChunk ident dat @ rest) 0 (length (buildChunk ident dat @ rest)) =
     Some (\<lparr>chunk_id = ident, chunk_size = of_nat (length dat), chunk_data = dat, chunk_offset = 0\<rparr>,
           length (buildChunk ident dat))"
proof -
  define T where "T = textEncode ident"
  define W where "W = writeUint32BE (replicate 4 0) 0 (of_nat (length dat))"
  define buf where "buf = buildChunk ident dat @ rest"
  have lT: "length T = 4" and dT: "textDecoderDecode T = ident"
    unfolding T_def by (rule known_tag_bytes[OF assms(1)])+
  have lW: "length W = 4" unfolding W_def by (simp add: length_writeUint32BE)
  have buf: "buf = T @ W @ dat @ rest"
    unfolding buf_def buildChunk_eq T_def[symmetric] W_def[symmetric] using lT by simp
  have lbuf: "length buf = 8 + length dat + length rest"
    unfolding buf using lT lW by simp
  have four: "readFourCC buf 0 = ident"
    unfolding buf readFourCC_def using lT dT by (simp add: sliceArr_def)
  then have known: "isKnownTag buf 0"
    using assms(1) lbuf by (simp add: isKnownTag_def)
  have sk: "skipToNextTag buf 0 (length buf) = 0"
    by (rule skipToNextTag_stop) (simp add: known)
  have "readUint32BE buf (length T + 0) = readUint32BE (W @ dat @ rest) 0"
    unfolding buf by (rule readUint32BE_append)
  then have sz: "readUint32BE buf 4 = of_nat (length dat)"
    using lT unfolding W_def by (simp add: readUint32BE_written)
  have n: "unat (of_nat (length dat) :: u32) = length dat"
    by (rule unat_of_nat_u32[OF assms(2)])
  have stop: "min (8 + length dat) (length buf) = 8 + length dat"
    using lbuf by simp
  have dat: "sliceArr buf 8 (8 + length dat) = dat"
    unfolding buf using lT lW by (simp add: sliceArr_def)
  have lc: "length (buildChunk ident dat) = 8 + length dat"
    by (rule length_buildChunk)
  show ?thesis
    unfolding buf_def[symmetric] lc
    unfolding readChunkAt_def Let_def sk
    using lbuf four assms(1) by (simp add: sz n stop dat)
qed

lemma readChunksLoop_built:
  assumes "ident \<in> set KNOWN_TAGS" and "length dat < 2 ^ 32"
  shows "readChunksLoop (buildChunk ident dat @ rest) 0 (length (buildChunk ident dat @ rest)) =
     \<lparr>chunk_id = ident, chunk_size = of_nat (length dat), chunk_data = dat, chunk_offset = 0\<rparr>
     # map (\<lambda>c. c\<lparr>chunk_offset := length (buildChunk ident dat) + chunk_offset c\<rparr>)
         (readChunksLoop rest 0 (length rest))"
proof -
  have le: "0 + 8 \<le> length (buildChunk ident dat @ rest)"
    by (simp add: length_buildChunk)
  have "readChunksLoop (buildChunk ident dat @ rest) (length (buildChunk ident dat) + 0)
          (length (buildChunk ident dat) + length rest)
      = map (\<lambda>c. c\<lparr>chunk_offset := length (buildChunk ident dat) + chunk_offset c\<rparr>)
          (readChunksLoop rest 0 (length rest))"
    by (rule readChunksLoop_append)
  then show ?thesis
    unfolding readChunksLoop_step[OF le readChunkAt_built[OF assms]] by simp
qed

subsection \<open>Resynchronization\<close>

lemma skipToNextTag_garbage:
  assumes "\<forall>i<g. \<not> isKnownTag buf i" and "pos \<le> g" and "g \<le> e"
  shows "skipToNextTag buf pos e = skipToNextTag buf g e"
  using assms(2)
proof (induction "g - pos" arbitrary: pos)
  case 0
  then show ?case by simp
next
  case (Suc n)
  then have lt: "pos < g" by simp
  with assms(1,3) have "skipToNextTag buf pos e = skipToNextTag buf (pos + 1) e"
    by (intro skipToNextTag_step) simp_all
  moreover have "skipToNextTag buf (pos + 1) e = skipToNextTag buf g e"
    using Suc.hyps(2) lt by (intro Suc.hyps(1)) simp_all
  ultimately show ?case by simp
qed

lemma readChunksLoop_garbage:
  assumes "\<forall>i<length G. \<not> isKnownTag (G @ ys) i"
  shows "readChunksLoop (G @ ys) 0 (length (G @ ys)) =
     map (\<lambda>c. c\<lparr>chunk_offset := length G + chunk_offset c\<rparr>) (readChunksLoop ys 0 (length ys))"
proof -
  define e where "e = length (G @ ys)"
  have sk: "skipToNextTag (G @ ys) 0 e = skipToNextTag (G @ ys) (length G) e"
    by (rule skipToNextTag_garbage[OF assms]) (simp_all add: e_def)
  then have at: "readChunkAt (G @ ys) 0 e = readChunkAt (G @ ys) (length G) e"
    unfolding readChunkAt_def by simp
  have "readChunksLoop (G @ ys) 0 e = readChunksLoop (G @ ys) (length G) e"
  proof (cases "length G + 8 \<le> e")
    case True
    then show ?thesis
      by (subst readChunksLoop_unfold, subst (2) readChunksLoop_unfold) (simp add: at)
  next
    case False
    have "length G \<le> skipToNextTag (G @ ys) (length G) e" by (rule skipToNextTag_ge)
    with False have "readChunkAt (G @ ys) 0 e = None"
      unfolding readChunkAt_None_iff sk by simp
    then have "readChunksLoop (G @ ys) 0 e = []"
      by (intro readChunksLoop_stop) simp
    moreover from False have "readChunksLoop (G @ ys) (length G) e = []"
      by (intro readChunksLoop_stop) simp
    ultimately show ?thesis by simp
  qed
  also have "\<dots> = map (\<lambda>c. c\<lparr>chunk_offset := length G + chunk_offset c\<rparr>)
      (readChunksLoop ys 0 (length ys))"
    using readChunksLoop_append[of G ys 0 "length ys"] by (simp add: e_def)
  finally show ?thesis unfolding e_def .
qed


lemma chunkContent_shift [simp]:
  "chunkContent (c\<lparr>chunk_offset := n\<rparr>) = chunkContent c"
  by (simp add: chunkContent_def)

lemma chunkContent_record [simp]:
  "chunkContent \<lparr>chunk_id = i, chunk_size = n, chunk_data = d, chunk_offset = off\<rparr> = (i, n, d)"
  by (simp add: chunkContent_def)

lemma readChunksLoop_built_list:
  assumes "\<forall>(ident, dat) \<in> set cs. ident \<in> set KNOWN_TAGS \<and> length dat < 2 ^ 32"
  shows "map chunkContent
           (readChunksLoop (concat (map (\<lambda>(ident, dat). buildChunk ident dat) cs) @ rest) 0
              (length (concat (map (\<lambda>(ident, dat). buildChunk ident dat) cs) @ rest)))
       = map (\<lambda>(ident, dat). (ident, of_nat (length dat), dat)) cs
         @ map chunkContent (readChunksLoop rest 0 (length rest))"
  using assms
proof (induction cs)
  case Nil
  show ?case by simp
next
  case (Cons x cs)
  obtain ident dat where x: "x = (ident, dat)" by (cases x)
  from Cons.prems have ok: "ident \<in> set KNOWN_TAGS" "length dat < 2 ^ 32"
    unfolding x by simp_all
  define rest' where "rest' = concat (map (\<lambda>(ident, dat). buildChunk ident dat) cs) @ rest"
  have split: "concat (map (\<lambda>(ident, dat). buildChunk ident dat) (x # cs)) @ rest
      = buildChunk ident dat @ rest'"
    unfolding rest'_def x by simp
  have IH: "map chunkContent (readChunksLoop rest' 0 (length rest'))
      = map (\<lambda>(ident, dat). (ident, of_nat (length dat), dat)) cs
        @ map chunkContent (readChunksLoop rest 0 (length rest))"
    unfolding rest'_def using Cons.prems by (intro Cons.IH) simp
  show ?case
    unfolding split readChunksLoop_built[OF ok]
    by (simp add: IH x comp_def)
qed

lemma window_in_garbage:
  assumes "i < length G"
  shows "take 4 (drop i (G @ ys)) = take 4 (drop i (G @ take 3 ys))"
proof -
  have d: "drop i (G @ zs) = drop i G @ zs" for zs :: "'a list"
    using assms by simp
  have m: "min (4 - (length G - i)) 3 = 4 - (length G - i)"
    using assms by arith
  show ?thesis
    unfolding d by (simp add: m)
qed

lemma garbage_not_known:
  assumes "\<forall>i<length G. textDecoderDecode (take 4 (drop i (G @ take 3 ys))) \<notin> set KNOWN_TAGS"
    and "i < length G"
  shows "\<not> isKnownTag (G @ ys) i"
proof -
  have "readFourCC (G @ ys) i = textDecoderDecode (take 4 (drop i (G @ take 3 ys)))"
    unfolding readFourCC_def sliceArr_def using window_in_garbage[OF assms(2), of ys] by simp
  with assms show ?thesis by (simp add: isKnownTag_def)
qed

text \<open>
  C8, as the code has it. Let a container begin with well-formed chunks (recognized tag,
  payload shorter than \<open>2^32\<close> bytes, written by \<open>buildChunk\<close>), followed by garbage
  \<open>G\<close> and then by the rest \<open>ys\<close>. If no four consecutive bytes that start inside
  \<open>G\<close> -- where the window may run on into the first three bytes of \<open>ys\<close> -- are a
  recognized tag, then \<open>readChunks\<close> returns chunks with the same tags, declared sizes
  and payloads as for the container without \<open>G\<close>.
\<close>

theorem readChunks_resync:
  assumes "\<forall>(ident, dat) \<in> set cs. ident \<in> set KNOWN_TAGS \<and> length dat < 2 ^ 32"
    and "\<forall>i<length G. textDecoderDecode (take 4 (drop i (G @ take 3 ys))) \<notin> set KNOWN_TAGS"
  shows "map chunkContent
           (readChunks (concat (map (\<lambda>(ident, dat). buildChunk ident dat) cs) @ G @ ys) 0 None)
       = map chunkContent
           (readChunks (concat (map (\<lambda>(ident, dat). buildChunk ident dat) cs) @ ys) 0 None)"
proof -
  have ng: "\<forall>i<length G. \<not> isKnownTag (G @ ys) i"
    using garbage_not_known[OF assms(2)] by blast
  have "map chunkContent (readChunksLoop (G @ ys) 0 (length (G @ ys)))
      = map chunkContent (readChunksLoop ys 0 (length ys))"
    unfolding readChunksLoop_garbage[OF ng] by (simp add: comp_def)
  then show ?thesis
    unfolding readChunks_def option.case
    unfolding readChunksLoop_built_list[OF assms(1)] by simp
qed

theorem readChunks_resync_witness:
  "lit ''EUID'' \<in> set KNOWN_TAGS
   \<and> length [0x41 :: byte] < 2 ^ 32
   \<and> textDecoderDecode [0x78, 0x79, 0x42, 0x4C] \<notin> set KNOWN_TAGS
   \<and> textDecoderDecode [0x79, 0x42, 0x4C, 0x4F] \<notin> set KNOWN_TAGS
   \<and> map chunkContent
        (readChunks (concat (map (\<lambda>(ident, dat). buildChunk ident dat) [(lit ''EUID'', [0x41])])
                      @ [0x78, 0x79] @ [0x42, 0x4C, 0x4F, 0x42, 0, 0, 0, 0]) 0 None)
     = map chunkContent
        (readChunks (concat (map (\<lambda>(ident, dat). buildChunk ident dat) [(lit ''EUID'', [0x41])])
                      @ [0x42, 0x4C, 0x4F, 0x42, 0, 0, 0, 0]) 0 None)"
proof -
  have a: "\<forall>(ident, dat) \<in> set [(lit ''EUID'', [0x41 :: byte])].
      ident \<in> set KNOWN_TAGS \<and> length dat < 2 ^ 32"
    by (simp add: KNOWN_TAGS_def)
  have w0: "textDecoderDecode (take 4 (drop 0 ([0x78, 0x79] @ take 3 [0x42, 0x4C, 0x4F, 0x42, 0, 0, 0, 0])))
      \<notin> set KNOWN_TAGS"
    and w1: "textDecoderDecode (take 4 (drop 1 ([0x78, 0x79] @ take 3 [0x42, 0x4C, 0x4F, 0x42, 0, 0, 0, 0])))
      \<notin> set KNOWN_TAGS"
    by (simp_all add: KNOWN_TAGS_def lit_def textDecoderDecode_def asciiDecodeByte_def)
  have b: "\<forall>i<length [0x78, 0x79 :: byte].
      textDecoderDecode (take 4 (drop i ([0x78, 0x79] @ take 3 [0x42, 0x4C, 0x4F, 0x42, 0, 0, 0, 0])))
        \<notin> set KNOWN_TAGS"
  proof (intro allI impI)
    fix i :: nat
    assume "i < length [0x78, 0x79 :: byte]"
    then have "i = 0 \<or> i = 1" by auto
    with w0 w1 show "textDecoderDecode
        (take 4 (drop i ([0x78, 0x79] @ take 3 [0x42, 0x4C, 0x4F, 0x42, 0, 0, 0, 0])))
          \<notin> set KNOWN_TAGS"
      by blast
  qed
  have e: "lit ''EUID'' \<in> set KNOWN_TAGS" and l: "length [0x41 :: byte] < 2 ^ 32"
    by (simp_all add: KNOWN_TAGS_def)
  have v0: "textDecoderDecode [0x78, 0x79, 0x42, 0x4C] \<notin> set KNOWN_TAGS"
    and v1: "textDecoderDecode [0x79, 0x42, 0x4C, 0x4F] \<notin> set KNOWN_TAGS"
    by (simp_all add: KNOWN_TAGS_def lit_def textDecoderDecode_def asciiDecodeByte_def)
  show ?thesis
    by (intro conjI e l v0 v1 readChunks_resync[OF a b])
qed

text \<open>
  C8 as stated fails: the garbage \<open>x B L O\<close> has one window of four bytes, which is no
  recognized tag, but its last three bytes and the first byte of the following BLOB chunk
  spell \<open>BLOB\<close>. The reader takes that for a chunk, three bytes early: declared size
  \<open>0x4C4F4200\<close> and payload \<open>00 00 00\<close> instead of an empty BLOB chunk.
\<close>

lemma blob_empty_bytes:
  "buildChunk (lit ''BLOB'') [] = [0x42, 0x4C, 0x4F, 0x42, 0x00, 0x00, 0x00, 0x00]"
  unfolding buildChunk_eq writeUint32BE_fresh
  by (simp add: textEncode_def lit_def utf8EncodeCodePoint_def toByte_def)

lemma resync_early_tag:
  "readChunksLoop [0x78, 0x42, 0x4C, 0x4F, 0x42, 0x4C, 0x4F, 0x42, 0x00, 0x00, 0x00, 0x00] 0 12 =
     [\<lparr>chunk_id = lit ''BLOB'', chunk_size = 0x4C4F4200, chunk_data = [0, 0, 0], chunk_offset = 1\<rparr>]"
proof -
  let ?buf = "[0x78, 0x42, 0x4C, 0x4F, 0x42, 0x4C, 0x4F, 0x42, 0x00, 0x00, 0x00, 0x00] :: bytes"
  have k0: "\<not> isKnownTag ?buf 0" and k1: "isKnownTag ?buf 1"
    by (simp_all add: isKnownTag_def readFourCC_def sliceArr_def textDecoderDecode_def
          asciiDecodeByte_def KNOWN_TAGS_def lit_def)
  have "skipToNextTag ?buf 0 12 = skipToNextTag ?buf (0 + 1) 12"
    by (rule skipToNextTag_step) (simp_all add: k0)
  also have "\<dots> = 1"
    using k1 by (simp add: skipToNextTag_stop)
  finally have sk: "skipToNextTag ?buf 0 12 = 1" .
  have four: "readFourCC ?buf 1 = lit ''BLOB''"
    by (simp add: readFourCC_def sliceArr_def textDecoderDecode_def asciiDecodeByte_def lit_def)
  have known: "lit ''BLOB'' \<in> set KNOWN_TAGS" by (simp add: KNOWN_TAGS_def)
  have sz: "readUint32BE ?buf 5 = 0x4C4F4200"
    by (simp add: readUint32BE_def byteAt_def)
  have dat: "sliceArr ?buf 9 12 = [0, 0, 0]"
    by (simp add: sliceArr_def)
  have at: "readChunkAt ?buf 0 12 =
      Some (\<lparr>chunk_id = lit ''BLOB'', chunk_size = 0x4C4F4200, chunk_data = [0, 0, 0],
              chunk_offset = 1\<rparr>, 12)"
    unfolding readChunkAt_def Let_def sk
    using four known sz dat by simp
  have stop: "readChunksLoop ?buf 12 12 = []"
    by (rule readChunksLoop_stop) simp
  show ?thesis
    using readChunksLoop_step[OF _ at] stop by simp
qed

theorem readChunks_resync_counterexample:
  "textDecoderDecode [0x78, 0x42, 0x4C, 0x4F] \<notin> set KNOWN_TAGS
   \<and> map chunkContent
        (readChunks (buildChunk (lit ''EUID'') [] @ [0x78, 0x42, 0x4C, 0x4F] @ buildChunk (lit ''BLOB'') [])
           0 None)
     = [(lit ''EUID'', 0, []), (lit ''BLOB'', 0x4C4F4200, [0, 0, 0])]
   \<and> map chunkContent
        (readChunks (buildChunk (lit ''EUID'') [] @ buildChunk (lit ''BLOB'') []) 0 None)
     = [(lit ''EUID'', 0, []), (lit ''BLOB'', 0, [])]"
proof -
  have w: "textDecoderDecode [0x78, 0x42, 0x4C, 0x4F] \<notin> set KNOWN_TAGS"
    by (simp add: KNOWN_TAGS_def lit_def textDecoderDecode_def asciiDecodeByte_def)
  have euid: "lit ''EUID'' \<in> set KNOWN_TAGS" and blob: "lit ''BLOB'' \<in> set KNOWN_TAGS"
    by (simp_all add: KNOWN_TAGS_def)
  let ?tail = "[0x78, 0x42, 0x4C, 0x4F, 0x42, 0x4C, 0x4F, 0x42, 0x00, 0x00, 0x00, 0x00] :: bytes"
  have tail: "[0x78, 0x42, 0x4C, 0x4F] @ buildChunk (lit ''BLOB'') [] = ?tail"
    by (simp add: blob_empty_bytes)
  have len: "length ?tail = 12" by simp
  have early: "readChunksLoop ?tail 0 (length ?tail) =
      [\<lparr>chunk_id = lit ''BLOB'', chunk_size = 0x4C4F4200, chunk_data = [0, 0, 0],
         chunk_offset = 1\<rparr>]"
    unfolding len by (rule resync_early_tag)
  have short: "length ([] :: bytes) < 2 ^ 32" by simp
  have with_g: "map chunkContent
      (readChunksLoop (buildChunk (lit ''EUID'') [] @ ?tail) 0
         (length (buildChunk (lit ''EUID'') [] @ ?tail)))
    = [(lit ''EUID'', 0, []), (lit ''BLOB'', 0x4C4F4200, [0, 0, 0])]"
    unfolding readChunksLoop_built[OF euid short] early by simp
  have without_g: "map chunkContent
      (readChunksLoop
         (concat (map (\<lambda>(ident, dat). buildChunk ident dat) [(lit ''EUID'', []), (lit ''BLOB'', [])]) @ [])
         0
         (length (concat (map (\<lambda>(ident, dat). buildChunk ident dat)
                   [(lit ''EUID'', []), (lit ''BLOB'', [])]) @ [])))
    = [(lit ''EUID'', 0, []), (lit ''BLOB'', 0, [])]"
    by (subst readChunksLoop_built_list) (simp_all add: euid blob readChunksLoop_stop)
  from w with_g without_g show ?thesis
    unfolding readChunks_def option.case tail by simp
qed

end
